theory Spec2Isabelle
  imports Main "HOL-Library.Word"
begin

section \<open>Go library functions used by the package\<close>

text \<open>
  A Go string is a sequence of bytes, here a \<open>string\<close> (a list of \<open>char\<close>, one per byte).
  The functions of this section are the parts of \<open>strings\<close>, \<open>strconv\<close> and \<open>unicode\<close> that
  the package calls. They are written on bytes; where the library decodes UTF-8 the
  model compares with the encodings of the runes concerned.
\<close>

subsection \<open>White space\<close>

text \<open>
  \<open>unicode.IsSpace\<close> holds for U+0009..U+000D, U+0020, U+0085, U+00A0, U+1680,
  U+2000..U+200A, U+2028, U+2029, U+202F, U+205F and U+3000. \<open>spaceRunes\<close> lists their UTF-8
  encodings. No encoding is a prefix of another and none starts inside another rune, so
  a white-space rune starts (ends) a string exactly when its encoding is a prefix
  (suffix) of the bytes.
\<close>

definition spaceRunes :: "string list" where
  "spaceRunes =
    [[CHR 0x09], [CHR 0x0A], [CHR 0x0B], [CHR 0x0C], [CHR 0x0D], [CHR 0x20],
     [CHR 0xC2, CHR 0x85], [CHR 0xC2, CHR 0xA0],
     [CHR 0xE1, CHR 0x9A, CHR 0x80],
     [CHR 0xE2, CHR 0x80, CHR 0x80], [CHR 0xE2, CHR 0x80, CHR 0x81],
     [CHR 0xE2, CHR 0x80, CHR 0x82], [CHR 0xE2, CHR 0x80, CHR 0x83],
     [CHR 0xE2, CHR 0x80, CHR 0x84], [CHR 0xE2, CHR 0x80, CHR 0x85],
     [CHR 0xE2, CHR 0x80, CHR 0x86], [CHR 0xE2, CHR 0x80, CHR 0x87],
     [CHR 0xE2, CHR 0x80, CHR 0x88], [CHR 0xE2, CHR 0x80, CHR 0x89],
     [CHR 0xE2, CHR 0x80, CHR 0x8A],
     [CHR 0xE2, CHR 0x80, CHR 0xA8], [CHR 0xE2, CHR 0x80, CHR 0xA9],
     [CHR 0xE2, CHR 0x80, CHR 0xAF],
     [CHR 0xE2, CHR 0x81, CHR 0x9F],
     [CHR 0xE3, CHR 0x80, CHR 0x80]]"

definition HasPrefix :: "string \<Rightarrow> string \<Rightarrow> bool" where
  "HasPrefix s p \<longleftrightarrow> take (length p) s = p"

definition HasSuffix :: "string \<Rightarrow> string \<Rightarrow> bool" where
  "HasSuffix s p \<longleftrightarrow> length p \<le> length s \<and> drop (length s - length p) s = p"

definition TrimPrefix :: "string \<Rightarrow> string \<Rightarrow> string" where
  "TrimPrefix s p = (if HasPrefix s p then drop (length p) s else s)"

text \<open>The width in bytes of the white-space rune at the start (end) of \<open>s\<close>; 0 if there is none.\<close>

definition spaceWidth :: "string \<Rightarrow> nat" where
  "spaceWidth s = (case find (HasPrefix s) spaceRunes of None \<Rightarrow> 0 | Some w \<Rightarrow> length w)"

definition lastSpaceWidth :: "string \<Rightarrow> nat" where
  "lastSpaceWidth s = (case find (HasSuffix s) spaceRunes of None \<Rightarrow> 0 | Some w \<Rightarrow> length w)"

fun trimLeftSpace :: "string \<Rightarrow> string" where
  "trimLeftSpace [] = []"
| "trimLeftSpace (c # cs) =
     (if spaceWidth (c # cs) = 0 then c # cs
      else trimLeftSpace (drop (spaceWidth (c # cs) - 1) cs))"

lemma find_Some_mem: "find P xs = Some x \<Longrightarrow> x \<in> set xs \<and> P x"
  by (induction xs) (auto split: if_splits)

lemma lastSpaceWidth_le: "lastSpaceWidth s \<le> length s"
  by (auto simp: lastSpaceWidth_def HasSuffix_def split: option.splits dest!: find_Some_mem)

function trimRightSpace :: "string \<Rightarrow> string" where
  "trimRightSpace s =
     (if lastSpaceWidth s = 0 then s
      else trimRightSpace (take (length s - lastSpaceWidth s) s))"
  by pat_completeness auto
termination
proof (relation "measure length", simp)
  fix s :: string
  assume "lastSpaceWidth s \<noteq> 0"
  moreover have "lastSpaceWidth s \<le> length s" by (rule lastSpaceWidth_le)
  ultimately show "(take (length s - lastSpaceWidth s) s, s) \<in> measure length"
    by auto
qed

declare trimRightSpace.simps [simp del]

text \<open>\<open>strings.TrimSpace\<close>: all leading and trailing white-space runes removed.\<close>

definition TrimSpace :: "string \<Rightarrow> string" where
  "TrimSpace s = trimRightSpace (trimLeftSpace s)"

text \<open>
  \<open>strings.Fields\<close>: the maximal runs of bytes between white-space runes, none of them
  empty. \<open>cur\<close> is the field being read.
\<close>

fun fieldsFrom :: "string \<Rightarrow> string \<Rightarrow> string list" where
  "fieldsFrom cur [] = (if cur = [] then [] else [cur])"
| "fieldsFrom cur (c # cs) =
     (if spaceWidth (c # cs) = 0 then fieldsFrom (cur @ [c]) cs
      else (if cur = [] then [] else [cur]) @ fieldsFrom [] (drop (spaceWidth (c # cs) - 1) cs))"

definition Fields :: "string \<Rightarrow> string list" where
  "Fields s = fieldsFrom [] s"

subsection \<open>Splitting, joining, searching\<close>

text \<open>
  \<open>strings.SplitN(s, sep, n)\<close> and \<open>strings.Split(s, sep)\<close> for a separator of one byte, the
  only kind the package passes (\<open>";"\<close>, \<open>":"\<close>, \<open>"\\"\<close>). As in the library, \<open>Split\<close> is
  \<open>SplitN\<close> with one more part than there are separators.
\<close>

fun SplitN :: "string \<Rightarrow> char \<Rightarrow> nat \<Rightarrow> string list" where
  "SplitN s sep 0 = []"
| "SplitN s sep (Suc 0) = [s]"
| "SplitN s sep (Suc (Suc n)) =
     (case dropWhile (\<lambda>c. c \<noteq> sep) s of
        [] \<Rightarrow> [s]
      | _ # rest \<Rightarrow> takeWhile (\<lambda>c. c \<noteq> sep) s # SplitN rest sep (Suc n))"

definition Split :: "string \<Rightarrow> char \<Rightarrow> string list" where
  "Split s sep = SplitN s sep (Suc (count_list s sep))"

fun Join :: "string list \<Rightarrow> string \<Rightarrow> string" where
  "Join [] sep = []"
| "Join [x] sep = x"
| "Join (x # y # ys) sep = x @ sep @ Join (y # ys) sep"

fun Contains :: "string \<Rightarrow> string \<Rightarrow> bool" where
  "Contains [] sub \<longleftrightarrow> sub = []"
| "Contains (c # cs) sub \<longleftrightarrow> HasPrefix (c # cs) sub \<or> Contains cs sub"

text \<open>\<open>strings.TrimRight(s, cutset)\<close> for a cutset of ASCII bytes.\<close>

definition TrimRight :: "string \<Rightarrow> string \<Rightarrow> string" where
  "TrimRight s cutset = rev (dropWhile (\<lambda>c. c \<in> set cutset) (rev s))"

subsection \<open>Errors\<close>

text \<open>
  One constructor for each error the package or the library creates. \<open>Panic\<close> stands for a
  run-time panic (an index out of range); the model reaches it only where the source
  would index outside a slice.
\<close>

datatype error =
    Panic
  | ErrSyntax string
  | ErrRange string
  | EmptyLine
  | NotJoinEvent
  | InvalidClientNumber string error
  | KillFieldCount nat
  | NotKillEvent
  | InvalidKillerClientNum string error
  | InvalidVictimClientNum string error
  | InvalidPlayerEventLine string
  | InvalidFlag string error
  | InvalidChatLine string
  | InvalidTimestamp string
  | SourceError nat
  | IOError nat
  | ContextError nat

subsection \<open>strconv.Atoi\<close>

definition isDigit :: "char \<Rightarrow> bool" where
  "isDigit c \<longleftrightarrow> (48::nat) \<le> of_char c \<and> of_char c \<le> (57::nat)"

text \<open>
  \<open>Atoi\<close> takes an optional sign and then reads decimal digits from left to right. A
  byte that is no digit is a syntax error; digits that take the value beyond 64
  unsigned bits are a range error, whichever comes first (\<open>scanDigits\<close>, the loop of
  \<open>ParseUint\<close>; the fast path of \<open>Atoi\<close> for short strings gives the same results). A
  string without digits is a syntax error, and a value outside the 64-bit \<open>int\<close> is a
  range error. The errors carry the string.
\<close>

fun scanDigits :: "string \<Rightarrow> int \<Rightarrow> string \<Rightarrow> error + int" where
  "scanDigits s0 n [] = Inr n"
| "scanDigits s0 n (c # cs) =
     (if \<not> isDigit c then Inl (ErrSyntax s0)
      else if 2 ^ 64 \<le> n * 10 + (int (of_char c) - 48) then Inl (ErrRange s0)
      else scanDigits s0 (n * 10 + (int (of_char c) - 48)) cs)"

definition Atoi :: "string \<Rightarrow> error + int" where
  "Atoi s =
     (let neg = HasPrefix s ''-'';
          ds = (if HasPrefix s ''-'' \<or> HasPrefix s ''+'' then drop 1 s else s)
      in if ds = [] then Inl (ErrSyntax s)
         else case scanDigits s 0 ds of
           Inl err \<Rightarrow> Inl err
         | Inr un \<Rightarrow>
             (if \<not> neg \<and> 2 ^ 63 \<le> un then Inl (ErrRange s)
              else if neg \<and> 2 ^ 63 < un then Inl (ErrRange s)
              else Inr (if neg then - un else un)))"

section \<open>Events\<close>

text \<open>
  \<open>time.Duration\<close> is a signed 64-bit count of nanoseconds; \<open>*time.Duration\<close> is an option.
  The structs embed \<open>BaseEvent\<close>, as the records extend it. \<open>Event\<close> is the interface with
  its four implementations. The fields of \<open>KillEvent\<close> have the names under which
  \<open>parseKillEvent\<close> writes them.
\<close>

type_synonym Duration = "64 word"

record BaseEvent =
  Timestamp :: "Duration option"
  Command :: string
  Raw :: string

record PlayerEvent = BaseEvent +
  XUID :: string
  Flag :: int
  Player :: string
  Message :: string

record ServerEvent = BaseEvent +
  Data :: "string \<rightharpoonup> string"

record KillEvent = BaseEvent +
  KillerXUID :: string
  KillerClientNum :: int
  KillerTeam :: string
  KillerName :: string
  VictimXUID :: string
  VictimClientNum :: int
  VictimTeam :: string
  VictimName :: string
  Weapon :: string
  Damage :: string
  MeansOfDeath :: string
  HitLocation :: string

datatype Event =
    EBase BaseEvent
  | EPlayer PlayerEvent
  | EServer ServerEvent
  | EKill KillEvent

fun GetCommand :: "Event \<Rightarrow> string" where
  "GetCommand (EBase b) = Command b"
| "GetCommand (EPlayer p) = Command p"
| "GetCommand (EServer s) = Command s"
| "GetCommand (EKill k) = Command k"

fun GetTimestamp :: "Event \<Rightarrow> Duration option" where
  "GetTimestamp (EBase b) = Timestamp b"
| "GetTimestamp (EPlayer p) = Timestamp p"
| "GetTimestamp (EServer s) = Timestamp s"
| "GetTimestamp (EKill k) = Timestamp k"

fun GetRaw :: "Event \<Rightarrow> string" where
  "GetRaw (EBase b) = Raw b"
| "GetRaw (EPlayer p) = Raw p"
| "GetRaw (EServer s) = Raw s"
| "GetRaw (EKill k) = Raw k"

section \<open>The line grammar\<close>

subsection \<open>parseJoinEvent\<close>

text \<open>
  The regular expression is
  \<^verbatim>\<open>^(J);(-?[A-Fa-f0-9_]{1,32}|bot[0-9]+|0);([0-9]+);(.*)$\<close>.
  Neither the second nor the third group can hold a semicolon, so in a match they are
  the text up to the next semicolon; \<open>.\<close> matches every byte but a newline and \<open>$\<close> only
  the end of the text. \<open>joinMatch\<close> returns the four groups.
\<close>

definition isXuidChar :: "char \<Rightarrow> bool" where
  "isXuidChar c \<longleftrightarrow>
     (let n = (of_char c :: nat)
      in (65 \<le> n \<and> n \<le> 70) \<or> (97 \<le> n \<and> n \<le> 102) \<or> (48 \<le> n \<and> n \<le> 57) \<or> n = 95)"

definition matchXuid :: "string \<Rightarrow> bool" where
  "matchXuid x \<longleftrightarrow>
     (let y = (if HasPrefix x ''-'' then drop 1 x else x)
      in 1 \<le> length y \<and> length y \<le> 32 \<and> list_all isXuidChar y)
     \<or> (HasPrefix x ''bot'' \<and> drop 3 x \<noteq> [] \<and> list_all isDigit (drop 3 x))
     \<or> x = ''0''"

definition joinMatch :: "string \<Rightarrow> (string \<times> string \<times> string \<times> string) option" where
  "joinMatch line =
     (if \<not> HasPrefix line ''J;'' then None
      else let r1 = drop 2 line;
               x = takeWhile (\<lambda>c. c \<noteq> CHR '';'') r1
           in case dropWhile (\<lambda>c. c \<noteq> CHR '';'') r1 of
                [] \<Rightarrow> None
              | _ # r2 \<Rightarrow>
                  (let n = takeWhile (\<lambda>c. c \<noteq> CHR '';'') r2
                   in case dropWhile (\<lambda>c. c \<noteq> CHR '';'') r2 of
                        [] \<Rightarrow> None
                      | _ # name \<Rightarrow>
                          if matchXuid x \<and> n \<noteq> [] \<and> list_all isDigit n
                             \<and> CHR 0x0A \<notin> set name
                          then Some (''J'', x, n, name) else None))"

definition parseJoinEvent :: "string \<Rightarrow> Duration option \<Rightarrow> string \<Rightarrow> error + PlayerEvent" where
  "parseJoinEvent line ts raw =
     (case joinMatch line of
        None \<Rightarrow> Inl NotJoinEvent
      | Some (cmd, originNet, clientNumStr, originName) \<Rightarrow>
          (case Atoi clientNumStr of
             Inl err \<Rightarrow> Inl (InvalidClientNumber clientNumStr err)
           | Inr clientNum \<Rightarrow>
               Inr \<lparr>Timestamp = ts, Command = cmd, Raw = raw,
                    XUID = originNet, Flag = clientNum, Player = originName, Message = []\<rparr>))"

subsection \<open>parseKillEvent\<close>

definition parseKillEvent :: "string \<Rightarrow> Duration option \<Rightarrow> string \<Rightarrow> error + KillEvent" where
  "parseKillEvent line ts raw =
     (let parts = Split line (CHR '';'')
      in if length parts \<noteq> 13 then Inl (KillFieldCount (length parts))
         else case parts of
           [p0, p1, p2, p3, p4, p5, p6, p7, p8, p9, p10, p11, p12] \<Rightarrow>
             (if p0 \<noteq> ''K'' then Inl NotKillEvent
              else case Atoi p2 of
                Inl err \<Rightarrow> Inl (InvalidKillerClientNum p2 err)
              | Inr killerClientNum \<Rightarrow>
                  (case Atoi p6 of
                     Inl err \<Rightarrow> Inl (InvalidVictimClientNum p6 err)
                   | Inr victimClientNum \<Rightarrow>
                       Inr \<lparr>Timestamp = ts, Command = ''K'', Raw = raw,
                            KillerXUID = p1, KillerClientNum = killerClientNum,
                            KillerTeam = p3, KillerName = p4,
                            VictimXUID = p5, VictimClientNum = victimClientNum,
                            VictimTeam = p7, VictimName = p8,
                            Weapon = p9, Damage = p10, MeansOfDeath = p11,
                            HitLocation = p12\<rparr>))
         | _ \<Rightarrow> Inl Panic)"

subsection \<open>parsePlayerEvent\<close>

definition parsePlayerEvent :: "string \<Rightarrow> Duration option \<Rightarrow> string \<Rightarrow> error + PlayerEvent" where
  "parsePlayerEvent line ts raw =
     (let parts = SplitN line (CHR '';'') 5
      in if length parts < 4 then Inl (InvalidPlayerEventLine line)
         else case parts of
           p0 # p1 # p2 # p3 # rest \<Rightarrow>
             (let cmd = TrimSpace p0;
                  xuid = TrimSpace p1
              in case Atoi (TrimSpace p2) of
                   Inl err \<Rightarrow> Inl (InvalidFlag p2 err)
                 | Inr flag \<Rightarrow>
                     (let player = TrimSpace p3;
                          message = (if length parts = 5
                                     then (case rest of p4 # _ \<Rightarrow> TrimSpace p4 | [] \<Rightarrow> [])
                                     else [])
                      in Inr \<lparr>Timestamp = ts, Command = cmd, Raw = raw,
                              XUID = xuid, Flag = flag, Player = player, Message = message\<rparr>))
         | _ \<Rightarrow> Inl Panic)"

subsection \<open>parseChatPlayerEvent\<close>

definition parseChatPlayerEvent :: "string \<Rightarrow> Duration option \<Rightarrow> string \<Rightarrow> error + PlayerEvent" where
  "parseChatPlayerEvent line ts raw =
     (let fields = Fields line
      in if length fields < 3 then Inl (InvalidChatLine line)
         else case fields of
           cmd # player # rest \<Rightarrow>
             Inr \<lparr>Timestamp = ts, Command = cmd, Raw = raw,
                  XUID = [], Flag = 0, Player = player, Message = Join rest '' ''\<rparr>
         | _ \<Rightarrow> Inl Panic)"

subsection \<open>parseKeyValuePairs\<close>

text \<open>
  The loop reads \<open>parts[i]\<close>, \<open>parts[i+1]\<close> for \<open>i = 1, 3, ...\<close> while \<open>i < len(parts) - 1\<close>:
  \<open>kvLoop\<close> runs over \<open>parts[1:]\<close> two at a time and stops when fewer than two remain. A
  later pair with the same key overwrites the earlier one.
\<close>

fun kvLoop :: "string list \<Rightarrow> (string \<rightharpoonup> string) \<Rightarrow> (string \<rightharpoonup> string)" where
  "kvLoop (key # val # rest) data = kvLoop rest (data(key \<mapsto> val))"
| "kvLoop [k] data = data"
| "kvLoop [] data = data"

definition parseKeyValuePairs :: "string \<Rightarrow> (string \<rightharpoonup> string)" where
  "parseKeyValuePairs s0 =
     (let s = TrimSpace s0
      in if s = [] then Map.empty
         else kvLoop (drop 1 (Split s (CHR 0x5C))) Map.empty)"

subsection \<open>parseTimestamp\<close>

text \<open>
  \<open>atoiAll\<close> is the loop over \<open>parts\<close>: it stops at the first component that \<open>Atoi\<close>
  rejects. The components are Go \<open>int\<close>s, 64 bits wide, and the sums and products wrap.
\<close>

fun atoiAll :: "string list \<Rightarrow> error + 64 word list" where
  "atoiAll [] = Inr []"
| "atoiAll (p # ps) =
     (case Atoi p of
        Inl err \<Rightarrow> Inl err
      | Inr n \<Rightarrow> (case atoiAll ps of Inl err \<Rightarrow> Inl err | Inr ns \<Rightarrow> Inr (word_of_int n # ns)))"

definition Second :: Duration where
  "Second = 1000000000"

definition parseTimestamp :: "string \<Rightarrow> error + Duration" where
  "parseTimestamp s =
     (let parts = Split s (CHR '':'')
      in if length parts < 2 \<or> length parts > 3 then Inl (InvalidTimestamp s)
         else case atoiAll parts of
           Inl err \<Rightarrow> Inl err
         | Inr nums \<Rightarrow>
             (let totalSec = (case nums of
                                [m, sec] \<Rightarrow> m * 60 + sec
                              | [h, m, sec] \<Rightarrow> h * 3600 + m * 60 + sec
                              | _ \<Rightarrow> 0)
              in Inr (totalSec * Second)))"

subsection \<open>ParseEventLine\<close>

text \<open>
  \<open>stripTimestamp\<close> is the block that sets \<open>ts\<close> and rewrites \<open>line\<close>: with more than one
  field and a colon in the first, a first field that parses as a timestamp is removed
  and the others are joined by single spaces. It takes the trimmed line.
\<close>

definition stripTimestamp :: "string \<Rightarrow> Duration option \<times> string" where
  "stripTimestamp line =
     (case Fields line of
        first # second # others \<Rightarrow>
          (if Contains first '':''
           then (case parseTimestamp first of
                   Inr dur \<Rightarrow> (Some dur, Join (second # others) '' '')
                 | Inl err \<Rightarrow> (None, line))
           else (None, line))
      | _ \<Rightarrow> (None, line))"

definition classifyLine :: "string \<Rightarrow> Duration option \<Rightarrow> string \<Rightarrow> error + Event" where
  "classifyLine line ts raw =
     (if HasPrefix line ''InitGame:''
      then Inr (EServer \<lparr>Timestamp = ts, Command = ''InitGame'', Raw = raw,
                         Data = parseKeyValuePairs (TrimPrefix line ''InitGame:'')\<rparr>)
      else if HasPrefix line ''ShutdownGame:''
      then Inr (EServer \<lparr>Timestamp = ts, Command = ''ShutdownGame'', Raw = raw,
                         Data = Map.empty\<rparr>)
      else if Contains line '';''
      then (case parseJoinEvent line ts raw of
              Inr ev \<Rightarrow> Inr (EPlayer ev)
            | Inl _ \<Rightarrow>
                (case parseKillEvent line ts raw of
                   Inr ev \<Rightarrow> Inr (EKill ev)
                 | Inl _ \<Rightarrow> map_sum id EPlayer (parsePlayerEvent line ts raw)))
      else if HasPrefix line ''say '' \<or> HasPrefix line ''sayteam ''
      then map_sum id EPlayer (parseChatPlayerEvent line ts raw)
      else Inr (EBase \<lparr>Timestamp = ts, Command = line, Raw = raw\<rparr>))"

definition ParseEventLine :: "string \<Rightarrow> error + Event" where
  "ParseEventLine line0 =
     (let line = TrimSpace line0
      in if line = [] then Inl EmptyLine
         else (let raw = line;
                   (ts, body) = stripTimestamp line
               in classifyLine body ts raw))"

section \<open>The player directory\<close>

subsection \<open>Colour codes and case\<close>

text \<open>
  The loop of \<open>stripColorCodes\<close> over the bytes: a caret is skipped together with the byte
  after it, if there is one.
\<close>

fun stripColorCodes :: "string \<Rightarrow> string" where
  "stripColorCodes [] = []"
| "stripColorCodes (c # cs) =
     (if c = CHR ''^'' then stripColorCodes (drop 1 cs) else c # stripColorCodes cs)"

definition asciiLower :: "char \<Rightarrow> char" where
  "asciiLower c =
     (if (65::nat) \<le> of_char c \<and> of_char c \<le> (90::nat) then char_of (of_char c + (32::nat)) else c)"

text \<open>
  \<open>strings.ToLower\<close> maps \<open>A..Z\<close> to \<open>a..z\<close> when every byte is ASCII. Otherwise it is
  \<open>strings.Map(unicode.ToLower, s)\<close>, which reads the case tables of the Go library:
  that mapping is the parameter \<open>mapLower\<close>.
\<close>

definition ToLower :: "(string \<Rightarrow> string) \<Rightarrow> string \<Rightarrow> string" where
  "ToLower mapLower s =
     (if list_all (\<lambda>c. (of_char c :: nat) < 128) s then map asciiLower s else mapLower s)"

subsection \<open>State\<close>

text \<open>
  A slice is a reference to a backing array in \<open>store\<close>; \<open>fresh\<close> is the next unused
  reference, so that \<open>make\<close> followed by \<open>copy\<close> is \<open>makeCopy\<close>. \<open>now\<close> is what \<open>time.Now()\<close>
  returns, in nanoseconds since the zero \<open>Time\<close>. \<open>source\<close> is the state of the
  \<open>PlayerSource\<close> and \<open>calls\<close> counts the calls of its \<open>Status\<close>. A \<open>PlayerSource\<close> is
  the function \<open>Status\<close>: from the state of the source to its result, the new state
  and the time the call took. The calls are taken one after the other; the mutex is
  not modelled.
\<close>

record Player =
  ClientNum :: int
  Name :: string
  GUID :: string

record 's world =
  now :: int
  source :: 's
  calls :: nat
  store :: "nat \<Rightarrow> Player list option"
  fresh :: nat

type_synonym 's PlayerSource = "'s \<Rightarrow> (error + Player list) \<times> 's \<times> nat"

record PlayerDirectory =
  ttl :: int
  players :: "nat option"
  expires :: int

definition defaultPlayerCacheExpiry :: int where
  "defaultPlayerCacheExpiry = 2 * 1000000000"

definition NewPlayerDirectory :: "int \<Rightarrow> PlayerDirectory" where
  "NewPlayerDirectory t =
     \<lparr>ttl = (if t \<le> 0 then defaultPlayerCacheExpiry else t), players = None, expires = 0\<rparr>"

text \<open>The elements of a slice (none for \<open>nil\<close>) and \<open>make\<close> with \<open>copy\<close>.\<close>

definition elems :: "'s world \<Rightarrow> nat option \<Rightarrow> Player list" where
  "elems w sl =
     (case sl of None \<Rightarrow> [] | Some a \<Rightarrow> (case store w a of None \<Rightarrow> [] | Some ps \<Rightarrow> ps))"

definition makeCopy :: "Player list \<Rightarrow> 's world \<Rightarrow> nat \<times> 's world" where
  "makeCopy ps w = (fresh w, w\<lparr>store := (store w)(fresh w \<mapsto> ps), fresh := Suc (fresh w)\<rparr>)"

subsection \<open>Snapshot\<close>

definition Snapshot ::
  "'s PlayerSource \<Rightarrow> PlayerDirectory \<Rightarrow> 's world \<Rightarrow> (error + nat) \<times> PlayerDirectory \<times> 's world" where
  "Snapshot Status d w =
     (if length (elems w (players d)) > 0 \<and> now w < expires d
      then (let (result, w1) = makeCopy (elems w (players d)) w
            in (Inr result, d, w1))
      else (let (res, src, dt) = Status (source w);
                w1 = w\<lparr>now := now w + int dt, source := src, calls := Suc (calls w)\<rparr>
            in case res of
                 Inl err \<Rightarrow> (Inl err, d, w1)
               | Inr ps \<Rightarrow>
                   (let (cache, w2) = makeCopy ps w1;
                        d1 = d\<lparr>players := Some cache, expires := now w2 + ttl d\<rparr>;
                        (result, w3) = makeCopy ps w2
                    in (Inr result, d1, w3))))"

subsection \<open>FindByName\<close>

definition FindByName ::
  "(string \<Rightarrow> string) \<Rightarrow> 's PlayerSource \<Rightarrow> PlayerDirectory \<Rightarrow> 's world \<Rightarrow> string
     \<Rightarrow> (error + Player option) \<times> PlayerDirectory \<times> 's world" where
  "FindByName mapLower Status d w name0 =
     (let name = TrimSpace (stripColorCodes name0)
      in if name = [] then (Inr None, d, w)
         else (let (res, d1, w1) = Snapshot Status d w
               in case res of
                    Inl err \<Rightarrow> (Inl err, d1, w1)
                  | Inr sl \<Rightarrow>
                      (let lower = ToLower mapLower name
                       in (Inr (find (\<lambda>p. Contains (ToLower mapLower (stripColorCodes (Name p))) lower)
                                     (elems w1 (Some sl))),
                           d1, w1))))"

section \<open>The tailer\<close>

text \<open>
  One pass of the loop of \<open>TailFileContext\<close>, as a function of what the environment
  answers during that pass: whether the context is done at each \<open>select\<close> (and with
  which \<open>ctx.Err()\<close>), what \<open>ReadString\<close> returns, what \<open>os.Stat(path)\<close> returns (its
  failure, or whether \<open>os.SameFile\<close> holds and the size), what \<open>currentOffset\<close> returns,
  and for each pass of the reopen loop whether the context is done and whether
  \<open>os.Open\<close> succeeds. The state is the open file (numbered from 0, one more at each
  reopen) and the number of its bytes that \<open>ReadString\<close> has returned. What the loop
  does to the outside is the list of its effects. The opening of the file and the
  first seek come before the loop and are not part of it.
\<close>

datatype readResult =
    ReadLine string
  | ReadEOF string
  | ReadErr string error

record iteration =
  doneAtTop :: "error option"
  rd :: readResult
  statPath :: "(bool \<times> int) option"
  offset :: int
  reopens :: "(error option \<times> bool) list"
  doneInSleep :: "error option"
  doneAtSend :: "error option"

record tailer =
  handle :: nat
  pos :: nat

datatype effect =
    LogParseError error
  | Send Event
  | SleepPoll
  | CloseFile nat
  | SleepRetry

datatype outcome =
    Continue tailer "effect list"
  | Return error "effect list"
  | Reopening "effect list"

text \<open>
  The inner loop that reopens the path. \<open>Reopening\<close> is a loop that has not come to an
  end within the answers given.
\<close>

fun reopenLoop :: "tailer \<Rightarrow> (error option \<times> bool) list \<Rightarrow> effect list \<Rightarrow> outcome" where
  "reopenLoop st [] fx = Reopening fx"
| "reopenLoop st ((Some err, _) # rest) fx = Return err fx"
| "reopenLoop st ((None, True) # rest) fx = Continue \<lparr>handle = Suc (handle st), pos = 0\<rparr> fx"
| "reopenLoop st ((None, False) # rest) fx = reopenLoop st rest (fx @ [SleepRetry])"

definition tailStep :: "tailer \<Rightarrow> iteration \<Rightarrow> outcome" where
  "tailStep st it =
     (case doneAtTop it of
        Some err \<Rightarrow> Return err []
      | None \<Rightarrow>
          (case rd it of
             ReadErr data err \<Rightarrow> Return err []
           | ReadEOF data \<Rightarrow>
               (let st1 = st\<lparr>pos := pos st + length data\<rparr>;
                    rotated = (case statPath it of
                                 None \<Rightarrow> False
                               | Some (same, sz) \<Rightarrow> \<not> same \<or> sz < offset it)
                in if rotated then reopenLoop st1 (reopens it) [CloseFile (handle st1)]
                   else (case doneInSleep it of
                           Some err \<Rightarrow> Return err []
                         | None \<Rightarrow> Continue st1 [SleepPoll]))
           | ReadLine data \<Rightarrow>
               (let st1 = st\<lparr>pos := pos st + length data\<rparr>;
                    line = TrimRight data [CHR 0x0D, CHR 0x0A]
                in if line = [] then Continue st1 []
                   else (case ParseEventLine line of
                           Inl err \<Rightarrow> Continue st1 [LogParseError err]
                         | Inr ev \<Rightarrow>
                             (case doneAtSend it of
                                Some err \<Rightarrow> Return err []
                              | None \<Rightarrow> Continue st1 [Send ev])))))"

datatype loopState =
    Running tailer
  | Stopped error
  | StillReopening

text \<open>The loop, for as many passes as there are answers.\<close>

fun tailLoop :: "tailer \<Rightarrow> iteration list \<Rightarrow> effect list \<times> loopState" where
  "tailLoop st [] = ([], Running st)"
| "tailLoop st (it # its) =
     (case tailStep st it of
        Continue st1 fx \<Rightarrow> (let (fx1, r) = tailLoop st1 its in (fx @ fx1, r))
      | Return err fx \<Rightarrow> (fx, Stopped err)
      | Reopening fx \<Rightarrow> (fx, StillReopening))"

section \<open>Notions used in the statements\<close>

text \<open>
  The cache of the directory holds the sequence \<open>ps\<close>: \<open>players\<close> is a slice allocated
  earlier whose backing array holds \<open>ps\<close>.
\<close>

definition cacheHolds :: "PlayerDirectory \<Rightarrow> 's world \<Rightarrow> Player list \<Rightarrow> bool" where
  "cacheHolds d w ps \<longleftrightarrow>
     (case players d of None \<Rightarrow> False | Some a \<Rightarrow> a < fresh w \<and> store w a = Some ps)"

text \<open>
  Modelled from the spec: the repository has no function that writes a mapping back as
  a blob; the specification speaks of re-serializing the mapping as backslash-delimited
  \<open>\key\value\<close> pairs. \<open>serializePairs\<close> writes the pairs of a mapping in the order given,
  each as a backslash, the key, a backslash and the value.
\<close>

definition serializePairs :: "(string \<times> string) list \<Rightarrow> string" where
  "serializePairs kvs = concat (map (\<lambda>(k, v). CHR 0x5C # k @ CHR 0x5C # v) kvs)"

text \<open>The keys and values of a list of pairs in the order in which \<open>serializePairs\<close> writes them.\<close>

fun tokens :: "(string \<times> string) list \<Rightarrow> string list" where
  "tokens [] = []"
| "tokens ((k, v) # kvs) = k # v # tokens kvs"

text \<open>The line that \<open>ParseEventLine\<close> classifies: trimmed, without its timestamp.\<close>

definition body :: "string \<Rightarrow> string" where
  "body line = snd (stripTimestamp (TrimSpace line))"

section \<open>Examples\<close>

text \<open>
  A world at time 100 in which nothing has been allocated, three sources (one that
  reports no players, one that fails, one that reports the player \<open>alice\<close> after 7
  nanoseconds), and the directory and world that the first \<open>Snapshot\<close> of a new
  directory leaves behind with the last of them.
\<close>

definition world0 :: "unit world" where
  "world0 = \<lparr>now = 100, source = (), calls = 0, store = Map.empty, fresh = 0\<rparr>"

definition emptySource :: "unit PlayerSource" where
  "emptySource s = (Inr [], s, 0)"

definition failingSource :: "unit PlayerSource" where
  "failingSource s = (Inl (SourceError 1), s, 5)"

definition alice :: Player where
  "alice = \<lparr>ClientNum = 3, Name = ''^1Al^2ice'', GUID = ''abc''\<rparr>"

definition aliceSource :: "unit PlayerSource" where
  "aliceSource s = (Inr [alice], s, 7)"

definition aliceDirectory :: PlayerDirectory where
  "aliceDirectory = \<lparr>ttl = 2000000000, players = Some 0, expires = 2000000107\<rparr>"

definition aliceWorld :: "unit world" where
  "aliceWorld =
     \<lparr>now = 107, source = (), calls = 1, store = [0 \<mapsto> [alice], 1 \<mapsto> [alice]], fresh = 2\<rparr>"

text \<open>
  The directory and the world that the first \<open>Snapshot\<close> of a new directory leaves
  behind with the source that reports no players: the cache holds the empty sequence
  and expires at time 2000000100.
\<close>

definition emptyDirectory :: PlayerDirectory where
  "emptyDirectory = \<lparr>ttl = 2000000000, players = Some 0, expires = 2000000100\<rparr>"

definition emptyWorld :: "unit world" where
  "emptyWorld =
     \<lparr>now = 100, source = (), calls = 1, store = [0 \<mapsto> [], 1 \<mapsto> []], fresh = 2\<rparr>"

text \<open>
  A second player, and a directory whose cache holds both players until time 5000.
\<close>

definition bob :: Player where
  "bob = \<lparr>ClientNum = 5, Name = ''Malice'', GUID = ''def''\<rparr>"

definition pairDirectory :: PlayerDirectory where
  "pairDirectory = \<lparr>ttl = 2000000000, players = Some 0, expires = 5000\<rparr>"

definition pairWorld :: "unit world" where
  "pairWorld =
     \<lparr>now = 200, source = (), calls = 1, store = [0 \<mapsto> [alice, bob]], fresh = 1\<rparr>"

text \<open>The blob \<open>\k\ \j\x\<close>: the value of \<open>k\<close> is a single space.\<close>

definition exampleBlob :: string where
  "exampleBlob =
     [CHR 0x5C, CHR ''k'', CHR 0x5C, CHR 0x20, CHR 0x5C, CHR ''j'', CHR 0x5C, CHR ''x'']"

text \<open>
  A tailer at the start of its first file, a pass in which \<open>ReadString\<close> returns the
  line \<open>a;b\<close>, and a pass in which it returns three bytes and \<open>io.EOF\<close> and \<open>os.Stat\<close>
  fails.
\<close>

definition tailer0 :: tailer where
  "tailer0 = \<lparr>handle = 0, pos = 0\<rparr>"

definition badLinePass :: iteration where
  "badLinePass =
     \<lparr>doneAtTop = None, rd = ReadLine [CHR ''a'', CHR '';'', CHR ''b'', CHR 0x0A],
      statPath = None, offset = 0, reopens = [], doneInSleep = None, doneAtSend = None\<rparr>"

definition eofPass :: iteration where
  "eofPass =
     \<lparr>doneAtTop = None, rd = ReadEOF ''par'', statPath = None, offset = 0, reopens = [],
      doneInSleep = None, doneAtSend = None\<rparr>"

section \<open>Properties of the library functions\<close>

subsection \<open>White space\<close>

lemma spaceRunes_nonempty: "w \<in> set spaceRunes \<Longrightarrow> w \<noteq> []"
  by (auto simp: spaceRunes_def)

lemma spaceRunes_bytes:
  "w \<in> set spaceRunes \<Longrightarrow> c \<in> set w \<Longrightarrow> (of_char c :: nat) < 33 \<or> 127 < (of_char c :: nat)"
  by (auto simp: spaceRunes_def)

lemma HasPrefix_iff: "HasPrefix s p \<longleftrightarrow> (\<exists>post. s = p @ post)"
  unfolding HasPrefix_def
  by (metis append_eq_conv_conj append_take_drop_id)

lemma HasSuffix_iff: "HasSuffix s p \<longleftrightarrow> (\<exists>pre. s = pre @ p)"
proof
  assume "HasSuffix s p"
  then have "s = take (length s - length p) s @ p"
    by (metis HasSuffix_def append_take_drop_id)
  then show "\<exists>pre. s = pre @ p" ..
next
  assume "\<exists>pre. s = pre @ p"
  then show "HasSuffix s p" by (auto simp: HasSuffix_def)
qed

lemma HasSuffix_append: "HasSuffix ys w \<Longrightarrow> HasSuffix (xs @ ys) w"
  unfolding HasSuffix_iff by (metis append.assoc)

lemma spaceWidth_pos_iff: "0 < spaceWidth s \<longleftrightarrow> (\<exists>w \<in> set spaceRunes. HasPrefix s w)"
proof (cases "find (HasPrefix s) spaceRunes")
  case None
  have "spaceWidth s = 0" using None by (simp add: spaceWidth_def)
  moreover have "\<not> (\<exists>w \<in> set spaceRunes. HasPrefix s w)"
    using None by (simp add: find_None_iff)
  ultimately show ?thesis by simp
next
  case (Some w)
  then have "w \<in> set spaceRunes \<and> HasPrefix s w" by (rule find_Some_mem)
  with Some show ?thesis by (auto simp: spaceWidth_def spaceRunes_nonempty)
qed

lemma lastSpaceWidth_pos_iff: "0 < lastSpaceWidth s \<longleftrightarrow> (\<exists>w \<in> set spaceRunes. HasSuffix s w)"
proof (cases "find (HasSuffix s) spaceRunes")
  case None
  have "lastSpaceWidth s = 0" using None by (simp add: lastSpaceWidth_def)
  moreover have "\<not> (\<exists>w \<in> set spaceRunes. HasSuffix s w)"
    using None by (simp add: find_None_iff)
  ultimately show ?thesis by simp
next
  case (Some w)
  then have "w \<in> set spaceRunes \<and> HasSuffix s w" by (rule find_Some_mem)
  with Some show ?thesis by (auto simp: lastSpaceWidth_def spaceRunes_nonempty)
qed

lemma spaceWidth_zero_iff: "spaceWidth s = 0 \<longleftrightarrow> (\<forall>w \<in> set spaceRunes. \<not> HasPrefix s w)"
  using spaceWidth_pos_iff [of s] by auto

lemma lastSpaceWidth_zero_iff: "lastSpaceWidth s = 0 \<longleftrightarrow> (\<forall>w \<in> set spaceRunes. \<not> HasSuffix s w)"
  using lastSpaceWidth_pos_iff [of s] by auto

lemma spaceWidth_Nil: "spaceWidth [] = 0"
  using spaceRunes_nonempty by (auto simp: spaceWidth_zero_iff HasPrefix_def)

lemma lastSpaceWidth_Nil: "lastSpaceWidth [] = 0"
  using lastSpaceWidth_le [of "[]"] by simp

text \<open>The fields lose the white space: if one field has all the bytes, no byte is a space.\<close>

lemma spaceWidth_space: "0 < spaceWidth (CHR 0x20 # cs)"
  unfolding spaceWidth_pos_iff by (auto simp: spaceRunes_def HasPrefix_def)

lemma spaceWidth_split:
  assumes "spaceWidth s \<noteq> 0"
  shows "\<exists>w \<in> set spaceRunes. s = w @ drop (spaceWidth s) s \<and> length w = spaceWidth s"
proof -
  from assms obtain w where f: "find (HasPrefix s) spaceRunes = Some w"
    by (auto simp: spaceWidth_def split: option.splits)
  then have m: "w \<in> set spaceRunes" and p: "HasPrefix s w"
    using find_Some_mem by fastforce+
  have l: "spaceWidth s = length w" using f by (simp add: spaceWidth_def)
  from p obtain post where "s = w @ post" by (auto simp: HasPrefix_iff)
  then have "s = w @ drop (length w) s" by simp
  with m l show ?thesis by auto
qed

lemma spaceWidth_take: "spaceWidth s = 0 \<Longrightarrow> spaceWidth (take n s) = 0"
  unfolding spaceWidth_zero_iff HasPrefix_iff
  by (metis append.assoc append_take_drop_id)

lemma lastSpaceWidth_append: "0 < lastSpaceWidth ys \<Longrightarrow> 0 < lastSpaceWidth (xs @ ys)"
  unfolding lastSpaceWidth_pos_iff using HasSuffix_append by blast

lemma lastSpaceWidth_Cons: "lastSpaceWidth (c # cs) = 0 \<Longrightarrow> lastSpaceWidth cs = 0"
  using lastSpaceWidth_append [of cs "[c]"] by auto

lemma spaceWidth_printable:
  assumes "33 \<le> (of_char c :: nat)" and "(of_char c :: nat) \<le> 127"
  shows "spaceWidth (c # cs) = 0"
proof -
  have "\<not> HasPrefix (c # cs) w" if w: "w \<in> set spaceRunes" for w
  proof
    assume "HasPrefix (c # cs) w"
    then obtain post where e: "c # cs = w @ post" by (auto simp: HasPrefix_iff)
    from w have "w \<noteq> []" by (rule spaceRunes_nonempty)
    with e have "c \<in> set w" by (cases w) auto
    with w assms show False using spaceRunes_bytes by fastforce
  qed
  then show ?thesis by (simp add: spaceWidth_zero_iff)
qed

lemma lastSpaceWidth_printable:
  assumes "33 \<le> (of_char c :: nat)" and "(of_char c :: nat) \<le> 127"
  shows "lastSpaceWidth (xs @ c # v) = lastSpaceWidth (c # v)"
proof -
  have "HasSuffix (xs @ c # v) w = HasSuffix (c # v) w" if w: "w \<in> set spaceRunes" for w
  proof
    assume "HasSuffix (xs @ c # v) w"
    then obtain pre where e: "xs @ c # v = pre @ w" by (auto simp: HasSuffix_iff)
    have "c \<notin> set w" using w assms spaceRunes_bytes by fastforce
    from e obtain us where "(xs @ us = pre \<and> c # v = us @ w) \<or> (xs = pre @ us \<and> us @ c # v = w)"
      unfolding append_eq_append_conv2 by blast
    then show "HasSuffix (c # v) w"
    proof
      assume "xs @ us = pre \<and> c # v = us @ w"
      then show ?thesis by (auto simp: HasSuffix_iff)
    next
      assume "xs = pre @ us \<and> us @ c # v = w"
      then have "c \<in> set w" by auto
      with \<open>c \<notin> set w\<close> show ?thesis by simp
    qed
  next
    assume "HasSuffix (c # v) w"
    then obtain pre where "c # v = pre @ w" by (auto simp: HasSuffix_iff)
    then have "xs @ c # v = (xs @ pre) @ w" by simp
    then show "HasSuffix (xs @ c # v) w" unfolding HasSuffix_iff by blast
  qed
  then have "find (HasSuffix (xs @ c # v)) spaceRunes = find (HasSuffix (c # v)) spaceRunes"
    by (intro find_cong) auto
  then show ?thesis by (simp add: lastSpaceWidth_def)
qed

lemma lastSpaceWidth_printable_Cons:
  assumes "33 \<le> (of_char c :: nat)" and "(of_char c :: nat) \<le> 127"
  shows "lastSpaceWidth (c # v) = lastSpaceWidth v"
proof -
  have "HasSuffix (c # v) w = HasSuffix v w" if w: "w \<in> set spaceRunes" for w
  proof
    assume "HasSuffix (c # v) w"
    then obtain pre where e: "c # v = pre @ w" by (auto simp: HasSuffix_iff)
    have cw: "c \<notin> set w" using w assms spaceRunes_bytes by fastforce
    show "HasSuffix v w"
    proof (cases pre)
      case Nil
      with e have "c \<in> set w" by (cases w) auto
      with cw show ?thesis by simp
    next
      case (Cons a pre')
      with e have "v = pre' @ w" by simp
      then show ?thesis unfolding HasSuffix_iff by blast
    qed
  next
    assume "HasSuffix v w"
    then show "HasSuffix (c # v) w" using HasSuffix_append [of v w "[c]"] by simp
  qed
  then have "find (HasSuffix (c # v)) spaceRunes = find (HasSuffix v) spaceRunes"
    by (intro find_cong) auto
  then show ?thesis by (simp add: lastSpaceWidth_def)
qed

lemma lastSpaceWidth_last_printable:
  assumes "33 \<le> (of_char c :: nat)" and "(of_char c :: nat) \<le> 127"
  shows "lastSpaceWidth (xs @ [c]) = 0"
proof -
  have "\<not> HasSuffix (xs @ [c]) w" if w: "w \<in> set spaceRunes" for w
  proof
    assume "HasSuffix (xs @ [c]) w"
    then obtain pre where e: "xs @ [c] = pre @ w" by (auto simp: HasSuffix_iff)
    from w have "w \<noteq> []" by (rule spaceRunes_nonempty)
    with e have "c = last w" by (metis last_appendR last_snoc)
    with \<open>w \<noteq> []\<close> have "c \<in> set w" by simp
    with w assms show False using spaceRunes_bytes by fastforce
  qed
  then show ?thesis by (simp add: lastSpaceWidth_zero_iff)
qed

subsection \<open>TrimSpace\<close>

lemma trimLeftSpace_id: "spaceWidth s = 0 \<Longrightarrow> trimLeftSpace s = s"
  by (cases s) auto

lemma trimRightSpace_id: "lastSpaceWidth s = 0 \<Longrightarrow> trimRightSpace s = s"
  by (simp add: trimRightSpace.simps)

lemma TrimSpace_id: "spaceWidth s = 0 \<Longrightarrow> lastSpaceWidth s = 0 \<Longrightarrow> TrimSpace s = s"
  by (simp add: TrimSpace_def trimLeftSpace_id trimRightSpace_id)

lemma TrimSpace_Nil: "TrimSpace [] = []"
  using lastSpaceWidth_le [of "[]"] by (simp add: TrimSpace_def trimRightSpace.simps)

lemma spaceWidth_trimLeftSpace: "spaceWidth (trimLeftSpace s) = 0"
  by (induction s rule: trimLeftSpace.induct) (auto simp: spaceWidth_Nil)

lemma lastSpaceWidth_trimRightSpace: "lastSpaceWidth (trimRightSpace s) = 0"
  by (induction s rule: trimRightSpace.induct) (simp add: trimRightSpace.simps)

lemma trimRightSpace_prefix: "\<exists>n. trimRightSpace s = take n s"
proof (induction s rule: trimRightSpace.induct)
  case (1 s)
  show ?case
  proof (cases "lastSpaceWidth s = 0")
    case True
    then have "trimRightSpace s = take (length s) s" by (simp add: trimRightSpace.simps)
    then show ?thesis ..
  next
    case False
    with 1 obtain n where "trimRightSpace (take (length s - lastSpaceWidth s) s) = take n (take (length s - lastSpaceWidth s) s)"
      by blast
    with False have "trimRightSpace s = take (min n (length s - lastSpaceWidth s)) s"
      by (simp add: trimRightSpace.simps [of s] min.commute)
    then show ?thesis ..
  qed
qed

lemma spaceWidth_TrimSpace: "spaceWidth (TrimSpace s) = 0"
proof -
  obtain n where "trimRightSpace (trimLeftSpace s) = take n (trimLeftSpace s)"
    using trimRightSpace_prefix by blast
  then show ?thesis
    by (simp add: TrimSpace_def spaceWidth_take spaceWidth_trimLeftSpace)
qed

lemma lastSpaceWidth_TrimSpace: "lastSpaceWidth (TrimSpace s) = 0"
  by (simp add: TrimSpace_def lastSpaceWidth_trimRightSpace)

lemma TrimSpace_J: "TrimSpace ''J'' = ''J''"
  by code_simp

lemma TrimSpace_K: "TrimSpace ''K'' = ''K''"
  by code_simp

subsection \<open>Fields and Join\<close>

lemma fieldsFrom_nonempty: "f \<in> set (fieldsFrom cur s) \<Longrightarrow> f \<noteq> []"
  by (induction cur s rule: fieldsFrom.induct) (auto split: if_splits)

lemma Fields_nonempty: "f \<in> set (Fields s) \<Longrightarrow> f \<noteq> []"
  unfolding Fields_def by (rule fieldsFrom_nonempty)

text \<open>A string without fields is empty or ends in white space.\<close>

lemma fieldsFrom_Nil:
  "fieldsFrom cur s = [] \<Longrightarrow> cur = [] \<and> (s = [] \<or> 0 < lastSpaceWidth s)"
proof (induction cur s rule: fieldsFrom.induct)
  case (1 cur)
  then show ?case by (simp split: if_splits)
next
  case (2 cur c cs)
  show ?case
  proof (cases "spaceWidth (c # cs) = 0")
    case True
    with 2 show ?thesis by auto
  next
    case False
    with "2.prems" have cur: "cur = []"
      and r: "fieldsFrom [] (drop (spaceWidth (c # cs) - 1) cs) = []"
      by (auto split: if_splits)
    from False obtain w where w: "w \<in> set spaceRunes"
      and e: "c # cs = w @ drop (spaceWidth (c # cs)) (c # cs)"
      using spaceWidth_split by blast
    have d: "drop (spaceWidth (c # cs)) (c # cs) = drop (spaceWidth (c # cs) - 1) cs"
      using False by (cases "spaceWidth (c # cs)") auto
    from "2.IH"(2) [OF False r]
    have "drop (spaceWidth (c # cs) - 1) cs = [] \<or> 0 < lastSpaceWidth (drop (spaceWidth (c # cs) - 1) cs)"
      by simp
    then have "0 < lastSpaceWidth (c # cs)"
    proof
      assume "drop (spaceWidth (c # cs) - 1) cs = []"
      with e d have "c # cs = w" by simp
      then have "HasSuffix (c # cs) w" by (simp add: HasSuffix_def)
      with w show ?thesis unfolding lastSpaceWidth_pos_iff by blast
    next
      assume "0 < lastSpaceWidth (drop (spaceWidth (c # cs) - 1) cs)"
      then have "0 < lastSpaceWidth (w @ drop (spaceWidth (c # cs) - 1) cs)"
        by (rule lastSpaceWidth_append)
      with e d show ?thesis by simp
    qed
    with cur show ?thesis by simp
  qed
qed

text \<open>A string with one field that neither starts nor ends in white space is that field.\<close>

lemma fieldsFrom_single:
  "fieldsFrom cur s = [t] \<Longrightarrow> lastSpaceWidth s = 0 \<Longrightarrow> cur \<noteq> [] \<or> spaceWidth s = 0
     \<Longrightarrow> t = cur @ s"
proof (induction cur s rule: fieldsFrom.induct)
  case (1 cur)
  then show ?case by (simp split: if_splits)
next
  case (2 cur c cs)
  show ?case
  proof (cases "spaceWidth (c # cs) = 0")
    case True
    with "2.prems" have "fieldsFrom (cur @ [c]) cs = [t]" by simp
    moreover have "lastSpaceWidth cs = 0" using "2.prems"(2) by (rule lastSpaceWidth_Cons)
    ultimately have "t = (cur @ [c]) @ cs" using "2.IH"(1) [OF True] by simp
    then show ?thesis by simp
  next
    case False
    with "2.prems" have cur: "cur \<noteq> []" by simp
    with False "2.prems"(1) have r: "fieldsFrom [] (drop (spaceWidth (c # cs) - 1) cs) = []"
      by simp
    from False obtain w where w: "w \<in> set spaceRunes"
      and e: "c # cs = w @ drop (spaceWidth (c # cs)) (c # cs)"
      using spaceWidth_split by blast
    have d: "drop (spaceWidth (c # cs)) (c # cs) = drop (spaceWidth (c # cs) - 1) cs"
      using False by (cases "spaceWidth (c # cs)") auto
    from fieldsFrom_Nil [OF r]
    have "drop (spaceWidth (c # cs) - 1) cs = [] \<or> 0 < lastSpaceWidth (drop (spaceWidth (c # cs) - 1) cs)"
      by simp
    then have "0 < lastSpaceWidth (c # cs)"
    proof
      assume "drop (spaceWidth (c # cs) - 1) cs = []"
      with e d have "c # cs = w" by simp
      then have "HasSuffix (c # cs) w" by (simp add: HasSuffix_def)
      with w show ?thesis unfolding lastSpaceWidth_pos_iff by blast
    next
      assume "0 < lastSpaceWidth (drop (spaceWidth (c # cs) - 1) cs)"
      then have "0 < lastSpaceWidth (w @ drop (spaceWidth (c # cs) - 1) cs)"
        by (rule lastSpaceWidth_append)
      with e d show ?thesis by simp
    qed
    with "2.prems"(2) show ?thesis by simp
  qed
qed

lemma Fields_single_TrimSpace: "Fields (TrimSpace s) = [t] \<Longrightarrow> TrimSpace s = t"
  using fieldsFrom_single [of "[]" "TrimSpace s" t]
  by (simp add: Fields_def spaceWidth_TrimSpace lastSpaceWidth_TrimSpace)

lemma fieldsFrom_length:
  "sum_list (map length (fieldsFrom cur s)) \<le> length cur + length s"
proof (induction cur s rule: fieldsFrom.induct)
  case (1 cur)
  then show ?case by simp
next
  case (2 cur c cs)
  then show ?case by (cases "spaceWidth (c # cs) = 0") (auto simp: le_diff_conv)
qed

lemma fieldsFrom_no_space:
  "sum_list (map length (fieldsFrom cur s)) = length cur + length s \<Longrightarrow> CHR 0x20 \<notin> set s"
proof (induction cur s rule: fieldsFrom.induct)
  case (1 cur)
  then show ?case by simp
next
  case (2 cur c cs)
  show ?case
  proof (cases "spaceWidth (c # cs) = 0")
    case True
    then have "c \<noteq> CHR 0x20" using spaceWidth_space [of cs] by auto
    moreover have "CHR 0x20 \<notin> set cs" using 2 True by simp
    ultimately show ?thesis by simp
  next
    case False
    have "sum_list (map length (fieldsFrom [] (drop (spaceWidth (c # cs) - 1) cs))) \<le> length cs"
      using fieldsFrom_length [of "[]" "drop (spaceWidth (c # cs) - 1) cs"] by simp
    with False "2.prems" show ?thesis by (auto split: if_splits)
  qed
qed

lemma Fields_single_no_space: "Fields t = [t] \<Longrightarrow> CHR 0x20 \<notin> set t"
  using fieldsFrom_no_space [of "[]" t] by (simp add: Fields_def)

lemma Join_nonempty: "x \<noteq> [] \<Longrightarrow> Join (x # xs) sep \<noteq> []"
  by (cases xs) auto

subsection \<open>Contains\<close>

lemma Contains_single: "Contains s [c] \<longleftrightarrow> c \<in> set s"
  by (induction s) (auto simp: HasPrefix_def)

lemma Contains_iff: "Contains s sub \<longleftrightarrow> (\<exists>pre post. s = pre @ sub @ post)"
proof (induction s)
  case Nil
  then show ?case by auto
next
  case (Cons c cs)
  show ?case
  proof
    assume "Contains (c # cs) sub"
    then consider "HasPrefix (c # cs) sub" | "Contains cs sub" by auto
    then show "\<exists>pre post. c # cs = pre @ sub @ post"
    proof cases
      case 1
      then obtain post where "c # cs = sub @ post" by (auto simp: HasPrefix_iff)
      then have "c # cs = [] @ sub @ post" by simp
      then show ?thesis by blast
    next
      case 2
      then obtain pre post where "cs = pre @ sub @ post" using Cons.IH by auto
      then have "c # cs = (c # pre) @ sub @ post" by simp
      then show ?thesis by blast
    qed
  next
    assume "\<exists>pre post. c # cs = pre @ sub @ post"
    then obtain pre post where e: "c # cs = pre @ sub @ post" by auto
    show "Contains (c # cs) sub"
    proof (cases pre)
      case Nil
      with e have "HasPrefix (c # cs) sub" by (auto simp: HasPrefix_iff)
      then show ?thesis by simp
    next
      case (Cons a pre')
      with e have "cs = pre' @ sub @ post" by simp
      then have "Contains cs sub" using Cons.IH by auto
      then show ?thesis by simp
    qed
  qed
qed

lemma HasPrefix_say_space:
  assumes "HasPrefix t ''say '' \<or> HasPrefix t ''sayteam ''"
  shows "CHR 0x20 \<in> set t"
proof -
  from assms obtain post where "t = ''say '' @ post \<or> t = ''sayteam '' @ post"
    unfolding HasPrefix_iff by blast
  then show ?thesis by auto
qed

subsection \<open>Split and SplitN\<close>

lemma SplitN_not_Nil: "0 < n \<Longrightarrow> SplitN s sep n \<noteq> []"
  by (induction s sep n rule: SplitN.induct) (auto split: list.splits)

lemma dropWhile_count: "dropWhile (\<lambda>c. c \<noteq> sep) s = x # rest \<Longrightarrow> count_list s sep = Suc (count_list rest sep)"
  by (induction s) (auto split: if_splits)

lemma dropWhile_Nil_count: "dropWhile (\<lambda>c. c \<noteq> sep) s = [] \<Longrightarrow> count_list s sep = 0"
  by (induction s) (auto split: if_splits)

lemma count_list_0: "count_list s sep = 0 \<longleftrightarrow> sep \<notin> set s"
  by (induction s) auto

lemma length_SplitN: "0 < n \<Longrightarrow> length (SplitN s sep n) = min n (Suc (count_list s sep))"
proof (induction s sep n rule: SplitN.induct)
  case (3 s sep n)
  show ?case
  proof (cases "dropWhile (\<lambda>c. c \<noteq> sep) s")
    case Nil
    then show ?thesis by (simp add: dropWhile_Nil_count del: dropWhile_eq_Nil_conv)
  next
    case (Cons x rest)
    then show ?thesis using 3 by (simp add: dropWhile_count)
  qed
qed simp_all

lemma length_Split: "length (Split s sep) = Suc (count_list s sep)"
  by (simp add: Split_def length_SplitN)

lemma SplitN_take: "m < n1 \<Longrightarrow> m < n2 \<Longrightarrow> take m (SplitN s sep n1) = take m (SplitN s sep n2)"
proof (induction m arbitrary: s n1 n2)
  case 0
  then show ?case by simp
next
  case (Suc m)
  then obtain k1 k2 where n: "n1 = Suc (Suc k1)" "n2 = Suc (Suc k2)"
    by (metis Suc_lessE less_nat_zero_code not0_implies_Suc)
  show ?case
  proof (cases "dropWhile (\<lambda>c. c \<noteq> sep) s")
    case Nil
    then show ?thesis by (simp add: n del: dropWhile_eq_Nil_conv)
  next
    case (Cons x rest)
    have "take m (SplitN rest sep (Suc k1)) = take m (SplitN rest sep (Suc k2))"
      using Suc.prems n by (intro Suc.IH) auto
    then show ?thesis by (simp add: n Cons)
  qed
qed

text \<open>The parts that \<open>SplitN\<close> returns when the separator occurs.\<close>

lemma SplitN_first:
  assumes "sep \<in> set s"
  shows "SplitN s sep (Suc (Suc n)) =
     takeWhile (\<lambda>c. c \<noteq> sep) s # SplitN (drop 1 (dropWhile (\<lambda>c. c \<noteq> sep) s)) sep (Suc n)"
proof -
  from assms have "dropWhile (\<lambda>c. c \<noteq> sep) s \<noteq> []" by auto
  then obtain x rest where d: "dropWhile (\<lambda>c. c \<noteq> sep) s = x # rest"
    by (cases "dropWhile (\<lambda>c. c \<noteq> sep) s") auto
  show ?thesis by (simp add: d)
qed

lemma SplitN_none:
  assumes "sep \<notin> set s"
  shows "SplitN s sep (Suc n) = [s]"
proof -
  from assms have d: "dropWhile (\<lambda>c. c \<noteq> sep) s = []" by auto
  show ?thesis by (cases n) (simp_all add: d)
qed

lemma Split_first:
  "sep \<in> set s \<Longrightarrow> \<exists>rest. Split s sep = takeWhile (\<lambda>c. c \<noteq> sep) s # rest"
proof -
  assume a: "sep \<in> set s"
  then have "count_list s sep \<noteq> 0" by (simp add: count_list_0)
  then obtain k where "count_list s sep = Suc k" by (cases "count_list s sep") auto
  with a show ?thesis by (simp only: Split_def SplitN_first) blast
qed

lemma SplitN5_first:
  "CHR '';'' \<in> set b \<Longrightarrow> SplitN b (CHR '';'') 5 = p0 # rest \<Longrightarrow>
     p0 = takeWhile (\<lambda>c. c \<noteq> CHR '';'') b"
  using SplitN_first [of "CHR '';''" b 3] by (simp add: eval_nat_numeral)

lemma SplitN_no_sep:
  "x \<in> set (SplitN s sep n) \<Longrightarrow> count_list s sep < n \<Longrightarrow> sep \<notin> set x"
proof (induction s sep n rule: SplitN.induct)
  case (1 s sep)
  then show ?case by simp
next
  case (2 s sep)
  then have "count_list s sep = 0" by simp
  then have "sep \<notin> set s" by (simp add: count_list_0)
  with 2 show ?case by simp
next
  case (3 s sep n)
  show ?case
  proof (cases "dropWhile (\<lambda>c. c \<noteq> sep) s")
    case Nil
    then have "count_list s sep = 0" by (rule dropWhile_Nil_count)
    then have "sep \<notin> set s" by (simp add: count_list_0)
    moreover have "x = s" using "3.prems"(1) by (simp only: SplitN.simps Nil list.case) simp
    ultimately show ?thesis by simp
  next
    case (Cons y rest)
    have c: "count_list rest sep < Suc n"
      using "3.prems"(2) dropWhile_count [OF Cons] by simp
    from "3.prems"(1) have "x = takeWhile (\<lambda>c. c \<noteq> sep) s \<or> x \<in> set (SplitN rest sep (Suc n))"
      by (simp only: SplitN.simps Cons list.case) simp
    then show ?thesis
    proof
      assume "x = takeWhile (\<lambda>c. c \<noteq> sep) s"
      then show ?thesis using set_takeWhileD [of sep "\<lambda>c. c \<noteq> sep" s] by auto
    next
      assume "x \<in> set (SplitN rest sep (Suc n))"
      then show ?thesis using "3.IH" [OF Cons] c by simp
    qed
  qed
qed

lemma Split_no_sep: "x \<in> set (Split s sep) \<Longrightarrow> sep \<notin> set x"
  using SplitN_no_sep [of x s sep "Suc (count_list s sep)"] by (simp add: Split_def)

lemma Split_nosep: "sep \<notin> set x \<Longrightarrow> Split x sep = [x]"
  by (simp add: Split_def count_list_0 SplitN_none)

lemma Split_append_sep:
  assumes "sep \<notin> set x"
  shows "Split (x @ sep # s) sep = x # Split s sep"
proof -
  have c: "count_list (x @ sep # s) sep = Suc (count_list s sep)"
    using assms by (simp add: count_list_0)
  have t: "takeWhile (\<lambda>c. c \<noteq> sep) (x @ sep # s) = x"
    using assms by (induction x) auto
  have d: "dropWhile (\<lambda>c. c \<noteq> sep) (x @ sep # s) = sep # s"
    using assms by (induction x) auto
  have "sep \<in> set (x @ sep # s)" by simp
  from SplitN_first [OF this, of "count_list s sep"] show ?thesis
    by (simp only: Split_def c t d) simp
qed

subsection \<open>Atoi\<close>

lemma isDigit_printable: "isDigit c \<Longrightarrow> 33 \<le> (of_char c :: nat) \<and> (of_char c :: nat) \<le> 127"
  by (simp add: isDigit_def)

text \<open>What \<open>Atoi\<close> accepts has no white space at either end.\<close>

lemma scanDigits_ok: "scanDigits s0 n ds = Inr v \<Longrightarrow> list_all isDigit ds"
  by (induction ds arbitrary: n) (auto split: if_splits)

lemma Atoi_ok_shape:
  assumes "Atoi s = Inr v"
  shows "\<exists>c cs. s = c # cs \<and> 33 \<le> (of_char c :: nat) \<and> (of_char c :: nat) \<le> 127
           \<and> isDigit (last s)"
proof -
  define ds where "ds = (if HasPrefix s ''-'' \<or> HasPrefix s ''+'' then drop 1 s else s)"
  from assms have ne: "ds \<noteq> []"
    by (auto simp: Atoi_def Let_def ds_def split: if_splits)
  from assms ne obtain un where "scanDigits s 0 ds = Inr un"
    by (cases "scanDigits s 0 ds") (auto simp: Atoi_def Let_def ds_def split: if_splits)
  then have dg: "list_all isDigit ds" by (rule scanDigits_ok)
  have l: "last s = last ds" using ne by (auto simp: ds_def last_drop)
  have "isDigit (last ds)" using ne dg by (simp add: list_all_iff)
  with l have ld: "isDigit (last s)" by simp
  from ne obtain c cs where s: "s = c # cs" by (cases s) (auto simp: ds_def split: if_splits)
  have "33 \<le> (of_char c :: nat) \<and> (of_char c :: nat) \<le> 127"
  proof (cases "HasPrefix s ''-'' \<or> HasPrefix s ''+''")
    case True
    with s have "c = CHR ''-'' \<or> c = CHR ''+''" by (auto simp: HasPrefix_def)
    then show ?thesis by auto
  next
    case False
    with s dg have "isDigit c" by (simp add: ds_def)
    then show ?thesis by (rule isDigit_printable)
  qed
  with s ld show ?thesis by blast
qed

lemma Atoi_ok_TrimSpace:
  assumes "Atoi s = Inr v"
  shows "TrimSpace s = s"
proof -
  from Atoi_ok_shape [OF assms] obtain c cs where s: "s = c # cs"
    and c: "33 \<le> (of_char c :: nat)" "(of_char c :: nat) \<le> 127" and d: "isDigit (last s)"
    by blast
  have a: "spaceWidth s = 0" unfolding s using c by (rule spaceWidth_printable)
  from s have "s = butlast s @ [last s]" by simp
  moreover have "lastSpaceWidth (butlast s @ [last s]) = 0"
    using isDigit_printable [OF d] by (intro lastSpaceWidth_last_printable) auto
  ultimately have b: "lastSpaceWidth s = 0" by simp
  from a b show ?thesis by (rule TrimSpace_id)
qed

section \<open>Properties of the line grammar\<close>

subsection \<open>The grammars of single events\<close>

lemma joinMatch_Some:
  assumes "joinMatch l = Some (c, x, n, name)"
  shows "c = ''J'' \<and> SplitN l (CHR '';'') 5 = ''J'' # x # n # SplitN name (CHR '';'') 2
         \<and> n \<noteq> [] \<and> list_all isDigit n"
proof -
  from assms have p: "HasPrefix l ''J;''"
    by (auto simp: joinMatch_def split: if_splits)
  then obtain r1 where l: "l = CHR ''J'' # CHR '';'' # r1"
    by (auto simp: HasPrefix_iff)
  from assms l obtain y r2 where d1: "dropWhile (\<lambda>c. c \<noteq> CHR '';'') r1 = y # r2"
    and x: "x = takeWhile (\<lambda>c. c \<noteq> CHR '';'') r1"
    by (auto simp: joinMatch_def HasPrefix_def Let_def split: list.splits if_splits)
  from assms l d1 obtain z where d2: "dropWhile (\<lambda>c. c \<noteq> CHR '';'') r2 = z # name"
    and n: "n = takeWhile (\<lambda>c. c \<noteq> CHR '';'') r2"
    and ok: "n \<noteq> []" "list_all isDigit n" "c = ''J''"
    by (auto simp: joinMatch_def HasPrefix_def Let_def split: list.splits if_splits)
  have "SplitN l (CHR '';'') (Suc (Suc (Suc (Suc (Suc 0))))) =
          ''J'' # x # n # SplitN name (CHR '';'') (Suc (Suc 0))"
    by (simp add: l d1 d2 x n)
  then show ?thesis using ok by (simp add: eval_nat_numeral)
qed

lemma parseJoinEvent_ok:
  assumes "parseJoinEvent l ts raw = Inr p"
  shows "Command p = ''J'' \<and> Timestamp p = ts \<and> Raw p = raw
         \<and> (\<exists>x n name v. SplitN l (CHR '';'') 5 = ''J'' # x # n # SplitN name (CHR '';'') 2
               \<and> Atoi n = Inr v)"
proof -
  from assms obtain c x n name where m: "joinMatch l = Some (c, x, n, name)"
    by (auto simp: parseJoinEvent_def split: option.splits)
  from assms m obtain v where v: "Atoi n = Inr v"
    by (auto simp: parseJoinEvent_def split: sum.splits)
  from joinMatch_Some [OF m] have c: "c = ''J''"
    and s: "SplitN l (CHR '';'') 5 = ''J'' # x # n # SplitN name (CHR '';'') 2" by auto
  from assms m v c have "Command p = ''J'' \<and> Timestamp p = ts \<and> Raw p = raw"
    by (auto simp: parseJoinEvent_def)
  with s v show ?thesis by blast
qed

lemma length13:
  "length xs = 13 \<Longrightarrow> \<exists>p0 p1 p2 p3 p4 p5 p6 p7 p8 p9 p10 p11 p12.
      xs = [p0, p1, p2, p3, p4, p5, p6, p7, p8, p9, p10, p11, p12]"
  by (simp add: eval_nat_numeral length_Suc_conv) blast

lemma parseKillEvent_ok:
  assumes "parseKillEvent l ts raw = Inr k"
  shows "Command k = ''K'' \<and> Timestamp k = ts \<and> Raw k = raw
         \<and> length (Split l (CHR '';'')) = 13
         \<and> (\<exists>p1 rest v. Split l (CHR '';'') = ''K'' # p1 # rest \<and> Atoi (hd rest) = Inr v)"
proof -
  from assms have len: "length (Split l (CHR '';'')) = 13"
    by (auto simp: parseKillEvent_def Let_def split: if_splits)
  from length13 [OF len] obtain p0 p1 p2 p3 p4 p5 p6 p7 p8 p9 p10 p11 p12
    where e: "Split l (CHR '';'') = [p0, p1, p2, p3, p4, p5, p6, p7, p8, p9, p10, p11, p12]"
    by blast
  from assms have "p0 = ''K'' \<and> (\<exists>v. Atoi p2 = Inr v) \<and>
      Command k = ''K'' \<and> Timestamp k = ts \<and> Raw k = raw"
    unfolding parseKillEvent_def Let_def e
    by (auto split: if_splits sum.splits)
  with len e show ?thesis by auto
qed

lemma parseKillEvent_no_panic: "parseKillEvent l ts raw \<noteq> Inl Panic"
proof (cases "length (Split l (CHR '';'')) = 13")
  case True
  from length13 [OF True] obtain p0 p1 p2 p3 p4 p5 p6 p7 p8 p9 p10 p11 p12
    where e: "Split l (CHR '';'') = [p0, p1, p2, p3, p4, p5, p6, p7, p8, p9, p10, p11, p12]"
    by blast
  show ?thesis unfolding parseKillEvent_def Let_def e
    by (auto split: if_splits sum.splits)
next
  case False
  then show ?thesis by (simp add: parseKillEvent_def Let_def)
qed

lemma length4:
  "\<not> length xs < 4 \<Longrightarrow> \<exists>p0 p1 p2 p3 rest. xs = p0 # p1 # p2 # p3 # rest"
  by (cases xs; simp; rename_tac ys, case_tac ys; simp; rename_tac zs, case_tac zs; simp;
      rename_tac us, case_tac us; simp)

lemma parsePlayerEvent_short:
  "length (SplitN l (CHR '';'') 5) < 4 \<Longrightarrow>
     parsePlayerEvent l ts raw = Inl (InvalidPlayerEventLine l)"
  by (simp add: parsePlayerEvent_def)

lemma parsePlayerEvent_flag:
  assumes "SplitN l (CHR '';'') 5 = p0 # p1 # p2 # p3 # rest"
  shows "parsePlayerEvent l ts raw =
     (case Atoi (TrimSpace p2) of
        Inl err \<Rightarrow> Inl (InvalidFlag p2 err)
      | Inr flag \<Rightarrow>
          Inr \<lparr>Timestamp = ts, Command = TrimSpace p0, Raw = raw, XUID = TrimSpace p1,
               Flag = flag, Player = TrimSpace p3,
               Message = (if length rest = 1 then TrimSpace (hd rest) else [])\<rparr>)"
  unfolding parsePlayerEvent_def Let_def assms
  by (auto split: sum.splits list.splits)

lemma parsePlayerEvent_no_panic: "parsePlayerEvent l ts raw \<noteq> Inl Panic"
proof (cases "length (SplitN l (CHR '';'') 5) < 4")
  case True
  then show ?thesis by (simp add: parsePlayerEvent_short)
next
  case False
  from length4 [OF False] obtain p0 p1 p2 p3 rest
    where "SplitN l (CHR '';'') 5 = p0 # p1 # p2 # p3 # rest" by blast
  from parsePlayerEvent_flag [OF this] show ?thesis by (auto split: sum.splits)
qed

lemma parseChatPlayerEvent_ok:
  assumes "parseChatPlayerEvent l ts raw = Inr p"
  shows "Command p \<noteq> [] \<and> Timestamp p = ts \<and> Raw p = raw"
proof -
  from assms obtain cmd player rest where f: "Fields l = cmd # player # rest"
    and c: "Command p = cmd" "Timestamp p = ts" "Raw p = raw"
    by (auto simp: parseChatPlayerEvent_def Let_def split: if_splits list.splits)
  have "cmd \<in> set (Fields l)" by (simp add: f)
  then have "cmd \<noteq> []" by (rule Fields_nonempty)
  with c show ?thesis by simp
qed

lemma parseChatPlayerEvent_no_panic: "parseChatPlayerEvent l ts raw \<noteq> Inl Panic"
  by (auto simp: parseChatPlayerEvent_def Let_def split: list.splits)

subsection \<open>Timestamps and classification\<close>

lemma stripTimestamp_Nil: "stripTimestamp [] = (None, [])"
  by (simp add: stripTimestamp_def Fields_def)

lemma stripTimestamp_nonempty:
  assumes "l \<noteq> []"
  shows "snd (stripTimestamp l) \<noteq> []"
proof (cases "Fields l")
  case Nil
  with assms show ?thesis by (simp add: stripTimestamp_def)
next
  case (Cons first rest)
  show ?thesis
  proof (cases rest)
    case Nil
    with Cons assms show ?thesis by (simp add: stripTimestamp_def)
  next
    case (Cons second others)
    have "second \<in> set (Fields l)" using \<open>Fields l = first # rest\<close> Cons by simp
    then have "second \<noteq> []" by (rule Fields_nonempty)
    then have "Join (second # others) '' '' \<noteq> []" by (rule Join_nonempty)
    with \<open>Fields l = first # rest\<close> Cons assms show ?thesis
      by (auto simp: stripTimestamp_def split: sum.splits)
  qed
qed

lemma body_nonempty: "TrimSpace line \<noteq> [] \<Longrightarrow> body line \<noteq> []"
  unfolding body_def by (rule stripTimestamp_nonempty)

lemma body_Nil: "TrimSpace line = [] \<Longrightarrow> body line = []"
  by (simp add: body_def stripTimestamp_Nil)

lemma ParseEventLine_unfold:
  "ParseEventLine line =
     (if TrimSpace line = [] then Inl EmptyLine
      else classifyLine (body line) (fst (stripTimestamp (TrimSpace line))) (TrimSpace line))"
  by (simp add: ParseEventLine_def body_def Let_def split: prod.splits)

lemma classifyLine_ts:
  assumes "classifyLine b ts raw = Inr ev"
  shows "GetTimestamp ev = ts \<and> GetRaw ev = raw"
proof -
  consider (init) "HasPrefix b ''InitGame:''"
    | (shut) "\<not> HasPrefix b ''InitGame:''" "HasPrefix b ''ShutdownGame:''"
    | (semi) "\<not> HasPrefix b ''InitGame:''" "\<not> HasPrefix b ''ShutdownGame:''" "Contains b '';''"
    | (chat) "\<not> HasPrefix b ''InitGame:''" "\<not> HasPrefix b ''ShutdownGame:''"
        "\<not> Contains b '';''" "HasPrefix b ''say '' \<or> HasPrefix b ''sayteam ''"
    | (base) "\<not> HasPrefix b ''InitGame:''" "\<not> HasPrefix b ''ShutdownGame:''"
        "\<not> Contains b '';''" "\<not> (HasPrefix b ''say '' \<or> HasPrefix b ''sayteam '')"
    by blast
  then show ?thesis
  proof cases
    case init
    with assms show ?thesis by (auto simp: classifyLine_def)
  next
    case shut
    with assms show ?thesis by (auto simp: classifyLine_def)
  next
    case semi
    show ?thesis
    proof (cases "parseJoinEvent b ts raw")
      case (Inr p)
      with assms semi have "ev = EPlayer p" by (simp add: classifyLine_def)
      with parseJoinEvent_ok [OF Inr] show ?thesis by simp
    next
      case (Inl e)
      show ?thesis
      proof (cases "parseKillEvent b ts raw")
        case (Inr k)
        with assms semi Inl have "ev = EKill k" by (simp add: classifyLine_def)
        with parseKillEvent_ok [OF Inr] show ?thesis by simp
      next
        case Inl2: (Inl e2)
        with assms semi Inl obtain p where p: "parsePlayerEvent b ts raw = Inr p" "ev = EPlayer p"
          by (cases "parsePlayerEvent b ts raw") (auto simp: classifyLine_def)
        have "\<not> length (SplitN b (CHR '';'') 5) < 4"
          using p(1) by (auto simp: parsePlayerEvent_short)
        from length4 [OF this] obtain p0 p1 p2 p3 rest
          where "SplitN b (CHR '';'') 5 = p0 # p1 # p2 # p3 # rest" by blast
        from parsePlayerEvent_flag [OF this, of ts raw] p show ?thesis
          by (auto split: sum.splits)
      qed
    qed
  next
    case chat
    with assms obtain p where p: "parseChatPlayerEvent b ts raw = Inr p" "ev = EPlayer p"
      by (cases "parseChatPlayerEvent b ts raw") (auto simp: classifyLine_def)
    with parseChatPlayerEvent_ok [OF p(1)] show ?thesis by simp
  next
    case base
    with assms show ?thesis by (auto simp: classifyLine_def)
  qed
qed

lemma classifyLine_no_panic: "classifyLine b ts raw \<noteq> Inl Panic"
proof -
  have a: "map_sum id EPlayer (parsePlayerEvent b ts raw) \<noteq> Inl Panic"
    using parsePlayerEvent_no_panic [of b ts raw]
    by (cases "parsePlayerEvent b ts raw") auto
  have b: "map_sum id EPlayer (parseChatPlayerEvent b ts raw) \<noteq> Inl Panic"
    using parseChatPlayerEvent_no_panic [of b ts raw]
    by (cases "parseChatPlayerEvent b ts raw") auto
  show ?thesis
    unfolding classifyLine_def using a b by (auto split: sum.splits)
qed

lemma ParseEventLine_no_panic: "ParseEventLine line \<noteq> Inl Panic"
  by (simp add: ParseEventLine_unfold classifyLine_no_panic)

lemma classifyLine_command:
  assumes "classifyLine b ts raw = Inr ev" and "b \<noteq> []"
  shows "GetCommand ev = [] \<longleftrightarrow>
           \<not> HasPrefix b ''InitGame:'' \<and> \<not> HasPrefix b ''ShutdownGame:''
           \<and> Contains b '';'' \<and> TrimSpace (takeWhile (\<lambda>c. c \<noteq> CHR '';'') b) = []"
proof -
  consider (init) "HasPrefix b ''InitGame:''"
    | (shut) "\<not> HasPrefix b ''InitGame:''" "HasPrefix b ''ShutdownGame:''"
    | (semi) "\<not> HasPrefix b ''InitGame:''" "\<not> HasPrefix b ''ShutdownGame:''" "Contains b '';''"
    | (chat) "\<not> HasPrefix b ''InitGame:''" "\<not> HasPrefix b ''ShutdownGame:''"
        "\<not> Contains b '';''" "HasPrefix b ''say '' \<or> HasPrefix b ''sayteam ''"
    | (base) "\<not> HasPrefix b ''InitGame:''" "\<not> HasPrefix b ''ShutdownGame:''"
        "\<not> Contains b '';''" "\<not> (HasPrefix b ''say '' \<or> HasPrefix b ''sayteam '')"
    by blast
  then show ?thesis
  proof cases
    case init
    with assms show ?thesis by (auto simp: classifyLine_def)
  next
    case shut
    with assms show ?thesis by (auto simp: classifyLine_def)
  next
    case semi
    then have mem: "CHR '';'' \<in> set b" by (simp add: Contains_single)
    show ?thesis
    proof (cases "parseJoinEvent b ts raw")
      case (Inr p)
      with assms semi have ev: "ev = EPlayer p" by (simp add: classifyLine_def)
      from parseJoinEvent_ok [OF Inr] obtain x n name
        where c: "Command p = ''J''"
          and s: "SplitN b (CHR '';'') 5 = ''J'' # x # n # SplitN name (CHR '';'') 2"
        by blast
      from SplitN5_first [OF mem s] have "takeWhile (\<lambda>c. c \<noteq> CHR '';'') b = ''J''" by simp
      with ev c show ?thesis by (simp add: TrimSpace_J)
    next
      case (Inl e)
      show ?thesis
      proof (cases "parseKillEvent b ts raw")
        case (Inr k)
        with assms semi Inl have ev: "ev = EKill k" by (simp add: classifyLine_def)
        from parseKillEvent_ok [OF Inr] obtain p1 rest
          where c: "Command k = ''K''" and s: "Split b (CHR '';'') = ''K'' # p1 # rest"
          by blast
        from Split_first [OF mem] s have "takeWhile (\<lambda>c. c \<noteq> CHR '';'') b = ''K''" by auto
        with ev c show ?thesis by (simp add: TrimSpace_K)
      next
        case Inl2: (Inl e2)
        with assms semi Inl obtain p where p: "parsePlayerEvent b ts raw = Inr p" "ev = EPlayer p"
          by (cases "parsePlayerEvent b ts raw") (auto simp: classifyLine_def)
        have "\<not> length (SplitN b (CHR '';'') 5) < 4"
          using p(1) by (auto simp: parsePlayerEvent_short)
        from length4 [OF this] obtain p0 p1 p2 p3 rest
          where s: "SplitN b (CHR '';'') 5 = p0 # p1 # p2 # p3 # rest" by blast
        from SplitN5_first [OF mem s] have p0: "p0 = takeWhile (\<lambda>c. c \<noteq> CHR '';'') b" .
        from parsePlayerEvent_flag [OF s, of ts raw] p have "Command p = TrimSpace p0"
          by (auto split: sum.splits)
        with p0 p(2) semi show ?thesis by simp
      qed
    qed
  next
    case chat
    with assms obtain p where p: "parseChatPlayerEvent b ts raw = Inr p" "ev = EPlayer p"
      by (cases "parseChatPlayerEvent b ts raw") (auto simp: classifyLine_def)
    with parseChatPlayerEvent_ok [OF p(1)] chat show ?thesis by simp
  next
    case base
    with assms show ?thesis by (auto simp: classifyLine_def)
  qed
qed

text \<open>A line with a semicolon that the generic grammar rejects is rejected by all three.\<close>

lemma classifyLine_generic_fail:
  assumes semi: "Contains b '';''"
    and ni: "\<not> HasPrefix b ''InitGame:''" and ns: "\<not> HasPrefix b ''ShutdownGame:''"
    and bad: "length (SplitN b (CHR '';'') 5) < 4
              \<or> isl (Atoi (TrimSpace (SplitN b (CHR '';'') 5 ! 2)))"
  shows "classifyLine b ts raw =
           (if length (SplitN b (CHR '';'') 5) < 4 then Inl (InvalidPlayerEventLine b)
            else Inl (InvalidFlag (SplitN b (CHR '';'') 5 ! 2)
                        (projl (Atoi (TrimSpace (SplitN b (CHR '';'') 5 ! 2))))))"
proof -
  have nj: "isl (parseJoinEvent b ts raw)"
  proof (cases "parseJoinEvent b ts raw")
    case (Inr p)
    from parseJoinEvent_ok [OF Inr] obtain x n name v
      where s: "SplitN b (CHR '';'') 5 = ''J'' # x # n # SplitN name (CHR '';'') 2"
        and v: "Atoi n = Inr v" by blast
    have "SplitN name (CHR '';'') 2 \<noteq> []" by (rule SplitN_not_Nil) simp
    with s have l: "\<not> length (SplitN b (CHR '';'') 5) < 4"
      by (cases "SplitN name (CHR '';'') 2") auto
    from s have "SplitN b (CHR '';'') 5 ! 2 = n" by simp
    moreover have "TrimSpace n = n" using v by (rule Atoi_ok_TrimSpace)
    ultimately have "\<not> isl (Atoi (TrimSpace (SplitN b (CHR '';'') 5 ! 2)))" using v by simp
    with l bad show ?thesis by simp
  qed simp
  have nk: "isl (parseKillEvent b ts raw)"
  proof (cases "parseKillEvent b ts raw")
    case (Inr k)
    from parseKillEvent_ok [OF Inr] obtain p1 rest v
      where len: "length (Split b (CHR '';'')) = 13"
        and s: "Split b (CHR '';'') = ''K'' # p1 # rest"
        and v: "Atoi (hd rest) = Inr v" by blast
    from len have cnt: "count_list b (CHR '';'') = 12" by (simp add: length_Split)
    then have l: "\<not> length (SplitN b (CHR '';'') 5) < 4" by (simp add: length_SplitN)
    from len s obtain p2 rest2 where r: "rest = p2 # rest2" by (cases rest) auto
    have "take 3 (SplitN b (CHR '';'') 5) = take 3 (SplitN b (CHR '';'') 13)"
      by (rule SplitN_take) simp_all
    also have "SplitN b (CHR '';'') 13 = Split b (CHR '';'')" by (simp add: Split_def cnt)
    finally have "take 3 (SplitN b (CHR '';'') 5) = [''K'', p1, p2]"
      by (simp add: s r eval_nat_numeral)
    then have "take 3 (SplitN b (CHR '';'') 5) ! 2 = p2" by simp
    then have "SplitN b (CHR '';'') 5 ! 2 = p2" by simp
    moreover have "TrimSpace p2 = p2" using v r by (auto intro: Atoi_ok_TrimSpace)
    ultimately have "\<not> isl (Atoi (TrimSpace (SplitN b (CHR '';'') 5 ! 2)))" using v r by simp
    with l bad show ?thesis by simp
  qed simp
  have c: "classifyLine b ts raw = map_sum id EPlayer (parsePlayerEvent b ts raw)"
    using semi ni ns nj nk by (auto simp: classifyLine_def split: sum.splits)
  show ?thesis
  proof (cases "length (SplitN b (CHR '';'') 5) < 4")
    case True
    then show ?thesis by (simp add: c parsePlayerEvent_short)
  next
    case False
    with bad have i: "isl (Atoi (TrimSpace (SplitN b (CHR '';'') 5 ! 2)))" by simp
    from length4 [OF False] obtain p0 p1 p2 p3 rest
      where s: "SplitN b (CHR '';'') 5 = p0 # p1 # p2 # p3 # rest" by blast
    from i s obtain e where e: "Atoi (TrimSpace p2) = Inl e"
      by (cases "Atoi (TrimSpace p2)") auto
    show ?thesis using False e by (simp add: c parsePlayerEvent_flag [OF s] s)
  qed
qed

lemma single_token_line:
  assumes "Fields (TrimSpace line) = [t]"
  shows "TrimSpace line = t \<and> t \<noteq> [] \<and> body line = t
         \<and> ParseEventLine line = classifyLine t None t
         \<and> \<not> (HasPrefix t ''say '' \<or> HasPrefix t ''sayteam '')"
proof -
  from assms have t: "TrimSpace line = t" by (rule Fields_single_TrimSpace)
  have "t \<in> set (Fields (TrimSpace line))" using assms by simp
  then have ne: "t \<noteq> []" by (rule Fields_nonempty)
  from assms t have f: "Fields t = [t]" by simp
  then have st: "stripTimestamp t = (None, t)" by (simp add: stripTimestamp_def)
  then have b: "body line = t" by (simp add: body_def t)
  have p: "ParseEventLine line = classifyLine t None t"
    using ne by (simp add: ParseEventLine_unfold t b st)
  have "CHR 0x20 \<notin> set t" using f by (rule Fields_single_no_space)
  then have "\<not> (HasPrefix t ''say '' \<or> HasPrefix t ''sayteam '')"
    using HasPrefix_say_space by blast
  with t ne b p show ?thesis by simp
qed

subsection \<open>Single lines\<close>

lemma pel_chat_plain:
  "ParseEventLine ''say PlayerOne hello'' =
     Inr (EPlayer \<lparr>Timestamp = None, Command = ''say'', Raw = ''say PlayerOne hello'',
                   XUID = [], Flag = 0, Player = ''PlayerOne'', Message = ''hello''\<rparr>)"
proof -
  have a: "TrimSpace ''say PlayerOne hello'' = ''say PlayerOne hello''"
    by code_simp
  have b: "stripTimestamp ''say PlayerOne hello'' = (None, ''say PlayerOne hello'')"
    by code_simp
  have c: "\<not> HasPrefix ''say PlayerOne hello'' ''InitGame:''"
    "\<not> HasPrefix ''say PlayerOne hello'' ''ShutdownGame:''"
    "\<not> Contains ''say PlayerOne hello'' '';''"
    "HasPrefix ''say PlayerOne hello'' ''say ''"
    by code_simp+
  have d: "parseChatPlayerEvent ''say PlayerOne hello'' None ''say PlayerOne hello'' =
      Inr \<lparr>Timestamp = None, Command = ''say'', Raw = ''say PlayerOne hello'',
           XUID = [], Flag = 0, Player = ''PlayerOne'', Message = ''hello''\<rparr>"
    by code_simp
  show ?thesis
    unfolding ParseEventLine_def classifyLine_def Let_def a b using c d by simp
qed

lemma pel_chat_ts:
  "ParseEventLine ''1:02:03 say PlayerOne hello'' =
     Inr (EPlayer \<lparr>Timestamp = Some (3723 * Second), Command = ''say'',
                   Raw = ''1:02:03 say PlayerOne hello'',
                   XUID = [], Flag = 0, Player = ''PlayerOne'', Message = ''hello''\<rparr>)"
proof -
  have a: "TrimSpace ''1:02:03 say PlayerOne hello'' = ''1:02:03 say PlayerOne hello''"
    by code_simp
  have b: "stripTimestamp ''1:02:03 say PlayerOne hello'' =
      (Some (3723 * Second), ''say PlayerOne hello'')"
    by code_simp
  have c: "\<not> HasPrefix ''say PlayerOne hello'' ''InitGame:''"
    "\<not> HasPrefix ''say PlayerOne hello'' ''ShutdownGame:''"
    "\<not> Contains ''say PlayerOne hello'' '';''"
    "HasPrefix ''say PlayerOne hello'' ''say ''"
    by code_simp+
  have d: "parseChatPlayerEvent ''say PlayerOne hello'' (Some (3723 * Second))
        ''1:02:03 say PlayerOne hello'' =
      Inr \<lparr>Timestamp = Some (3723 * Second), Command = ''say'',
           Raw = ''1:02:03 say PlayerOne hello'',
           XUID = [], Flag = 0, Player = ''PlayerOne'', Message = ''hello''\<rparr>"
    by code_simp
  show ?thesis
    unfolding ParseEventLine_def classifyLine_def Let_def a b using c d by simp
qed

lemma pel_empty_cmd:
  "ParseEventLine '';a;1;b'' =
     Inr (EPlayer \<lparr>Timestamp = None, Command = [], Raw = '';a;1;b'',
                   XUID = ''a'', Flag = 1, Player = ''b'', Message = []\<rparr>)"
proof -
  have a: "TrimSpace '';a;1;b'' = '';a;1;b''"
    by code_simp
  have b: "stripTimestamp '';a;1;b'' = (None, '';a;1;b'')"
    by code_simp
  have c: "\<not> HasPrefix '';a;1;b'' ''InitGame:''"
    "\<not> HasPrefix '';a;1;b'' ''ShutdownGame:''"
    "Contains '';a;1;b'' '';''"
    by code_simp+
  have d: "parseJoinEvent '';a;1;b'' None '';a;1;b'' = Inl NotJoinEvent"
    "parseKillEvent '';a;1;b'' None '';a;1;b'' = Inl (KillFieldCount 4)"
    "parsePlayerEvent '';a;1;b'' None '';a;1;b'' =
      Inr \<lparr>Timestamp = None, Command = [], Raw = '';a;1;b'',
           XUID = ''a'', Flag = 1, Player = ''b'', Message = []\<rparr>"
    by code_simp+
  show ?thesis
    unfolding ParseEventLine_def classifyLine_def Let_def a b using c d by simp
qed

lemma pel_short:
  "ParseEventLine ''a;b'' = Inl (InvalidPlayerEventLine ''a;b'')"
proof -
  have a: "TrimSpace ''a;b'' = ''a;b''"
    by code_simp
  have b: "stripTimestamp ''a;b'' = (None, ''a;b'')"
    by code_simp
  have c: "\<not> HasPrefix ''a;b'' ''InitGame:''"
    "\<not> HasPrefix ''a;b'' ''ShutdownGame:''"
    "Contains ''a;b'' '';''"
    by code_simp+
  have d: "parseJoinEvent ''a;b'' None ''a;b'' = Inl NotJoinEvent"
    "parseKillEvent ''a;b'' None ''a;b'' = Inl (KillFieldCount 2)"
    "parsePlayerEvent ''a;b'' None ''a;b'' = Inl (InvalidPlayerEventLine ''a;b'')"
    by code_simp+
  show ?thesis
    unfolding ParseEventLine_def classifyLine_def Let_def a b using c d by simp
qed

section \<open>Properties of the key/value parser\<close>

lemma Split_value_serialize:
  assumes "\<forall>(k, v) \<in> set kvs. CHR 0x5C \<notin> set k \<and> CHR 0x5C \<notin> set v" and "CHR 0x5C \<notin> set v0"
  shows "Split (v0 @ serializePairs kvs) (CHR 0x5C) = v0 # tokens kvs"
  using assms
proof (induction kvs arbitrary: v0)
  case Nil
  then show ?case by (simp add: serializePairs_def Split_nosep)
next
  case (Cons kv kvs)
  obtain k v where kv: "kv = (k, v)" by (cases kv)
  from Cons.prems kv have k: "CHR 0x5C \<notin> set k" and v: "CHR 0x5C \<notin> set v"
    and r: "\<forall>(k, v) \<in> set kvs. CHR 0x5C \<notin> set k \<and> CHR 0x5C \<notin> set v" by auto
  have s: "serializePairs (kv # kvs) = CHR 0x5C # k @ CHR 0x5C # (v @ serializePairs kvs)"
    by (simp add: serializePairs_def kv)
  have "Split (v0 @ serializePairs (kv # kvs)) (CHR 0x5C) =
          v0 # Split (k @ CHR 0x5C # (v @ serializePairs kvs)) (CHR 0x5C)"
    unfolding s using Cons.prems(2) by (rule Split_append_sep)
  also have "Split (k @ CHR 0x5C # (v @ serializePairs kvs)) (CHR 0x5C) =
          k # Split (v @ serializePairs kvs) (CHR 0x5C)"
    using k by (rule Split_append_sep)
  also have "Split (v @ serializePairs kvs) (CHR 0x5C) = v # tokens kvs"
    using r v by (rule Cons.IH)
  finally show ?case by (simp add: kv)
qed

lemma kvLoop_tokens:
  "distinct (map fst kvs) \<Longrightarrow> kvLoop (tokens kvs) m0 = m0 ++ map_of kvs"
proof (induction kvs arbitrary: m0)
  case Nil
  then show ?case by simp
next
  case (Cons kv kvs)
  obtain k v where kv: "kv = (k, v)" by (cases kv)
  from Cons.prems kv have nk: "k \<notin> fst ` set kvs" and d: "distinct (map fst kvs)" by auto
  then have n: "map_of kvs k = None" by (simp add: map_of_eq_None_iff)
  have "kvLoop (tokens (kv # kvs)) m0 = (m0(k \<mapsto> v)) ++ map_of kvs"
    using Cons.IH [OF d, of "m0(k \<mapsto> v)"] by (simp only: kv tokens.simps kvLoop.simps)
  also have "\<dots> = m0 ++ map_of (kv # kvs)"
    using n by (simp add: kv map_add_upd_left domIff)
  finally show ?case .
qed

lemma kvLoop_entries:
  "kvLoop parts m0 k = Some v \<Longrightarrow> m0 k = Some v \<or> (k \<in> set parts \<and> v \<in> set parts)"
  by (induction parts m0 rule: kvLoop.induct) (auto split: if_splits)

lemma parseKeyValuePairs_no_backslash:
  assumes "parseKeyValuePairs blob k = Some v"
  shows "CHR 0x5C \<notin> set k \<and> CHR 0x5C \<notin> set v"
proof -
  from assms have "kvLoop (drop 1 (Split (TrimSpace blob) (CHR 0x5C))) Map.empty k = Some v"
    by (auto simp: parseKeyValuePairs_def Let_def split: if_splits)
  from kvLoop_entries [OF this]
  have "k \<in> set (drop 1 (Split (TrimSpace blob) (CHR 0x5C)))
      \<and> v \<in> set (drop 1 (Split (TrimSpace blob) (CHR 0x5C)))" by simp
  then have "k \<in> set (Split (TrimSpace blob) (CHR 0x5C)) \<and> v \<in> set (Split (TrimSpace blob) (CHR 0x5C))"
    by (meson in_set_dropD)
  then show ?thesis using Split_no_sep by blast
qed

lemma serializePairs_append:
  "serializePairs (xs @ ys) = serializePairs xs @ serializePairs ys"
  by (simp add: serializePairs_def)

lemma backslash_printable: "33 \<le> (of_char (CHR 0x5C) :: nat) \<and> (of_char (CHR 0x5C) :: nat) \<le> 127"
  by simp

text \<open>
  A serialization starts with a backslash; when its last value does not end in white
  space, trimming leaves it as it is.
\<close>

lemma TrimSpace_serializePairs:
  assumes "kvs \<noteq> []" and "lastSpaceWidth (snd (last kvs)) = 0"
  shows "TrimSpace (serializePairs kvs) = serializePairs kvs \<and> serializePairs kvs \<noteq> []"
proof -
  from assms(1) obtain k0 v0 rest where c: "kvs = (k0, v0) # rest" by (cases kvs) auto
  then have s: "serializePairs kvs = CHR 0x5C # (k0 @ CHR 0x5C # v0 @ serializePairs rest)"
    by (simp add: serializePairs_def)
  have a: "spaceWidth (serializePairs kvs) = 0"
    unfolding s using backslash_printable by (intro spaceWidth_printable) auto
  obtain kl vl where l: "last kvs = (kl, vl)" by (cases "last kvs")
  with assms(1) have "kvs = butlast kvs @ [(kl, vl)]" by (metis append_butlast_last_id)
  then have "serializePairs kvs = serializePairs (butlast kvs) @ serializePairs [(kl, vl)]"
    by (metis serializePairs_append)
  then have e: "serializePairs kvs = (serializePairs (butlast kvs) @ CHR 0x5C # kl) @ CHR 0x5C # vl"
    by (simp add: serializePairs_def)
  have "lastSpaceWidth (serializePairs kvs) = lastSpaceWidth (CHR 0x5C # vl)"
    unfolding e using backslash_printable by (intro lastSpaceWidth_printable) auto
  also have "\<dots> = lastSpaceWidth vl"
    using backslash_printable by (intro lastSpaceWidth_printable_Cons) auto
  finally have b: "lastSpaceWidth (serializePairs kvs) = 0" using assms(2) l by simp
  from a b have "TrimSpace (serializePairs kvs) = serializePairs kvs" by (rule TrimSpace_id)
  with s show ?thesis by simp
qed

lemma parse_exampleBlob:
  "parseKeyValuePairs exampleBlob = [''k'' \<mapsto> '' '', ''j'' \<mapsto> ''x'']"
proof -
  have a: "TrimSpace exampleBlob = exampleBlob" by code_simp
  have b: "exampleBlob \<noteq> []" by code_simp
  have c: "Split exampleBlob (CHR 0x5C) = [[], ''k'', '' '', ''j'', ''x'']" by code_simp
  show ?thesis by (simp add: parseKeyValuePairs_def a b c)
qed

lemma parse_reordered:
  "parseKeyValuePairs (serializePairs [(''j'', ''x''), (''k'', '' '')]) = [''j'' \<mapsto> ''x'', ''k'' \<mapsto> []]"
proof -
  have a: "TrimSpace (serializePairs [(''j'', ''x''), (''k'', '' '')]) =
      [CHR 0x5C, CHR ''j'', CHR 0x5C, CHR ''x'', CHR 0x5C, CHR ''k'', CHR 0x5C]" by code_simp
  have c: "Split [CHR 0x5C, CHR ''j'', CHR 0x5C, CHR ''x'', CHR 0x5C, CHR ''k'', CHR 0x5C] (CHR 0x5C) =
      [[], ''j'', ''x'', ''k'', []]" by code_simp
  show ?thesis by (simp add: parseKeyValuePairs_def a c)
qed

section \<open>Properties of the directory and the tailer\<close>

lemma refresh_alice:
  "Snapshot aliceSource (NewPlayerDirectory 0) world0 = (Inr 1, aliceDirectory, aliceWorld)"
  by (simp add: Snapshot_def NewPlayerDirectory_def world0_def aliceSource_def elems_def
      makeCopy_def aliceDirectory_def aliceWorld_def defaultPlayerCacheExpiry_def)

text \<open>A refresh that succeeds leaves the sequence it fetched in the cache.\<close>

lemma refresh_fills_cache:
  assumes "\<not> (length (elems w (players d)) > 0 \<and> now w < expires d)"
    and "Status (source w) = (Inr ps, src, dt)"
    and "Snapshot Status d w = (res, d1, w1)"
  shows "cacheHolds d1 w1 ps \<and> expires d1 = now w1 + ttl d \<and> calls w1 = Suc (calls w)"
  using assms
  by (auto simp: Snapshot_def makeCopy_def cacheHolds_def Let_def split: if_splits)

lemma refresh_empty:
  "Snapshot emptySource (NewPlayerDirectory 0) world0 = (Inr 1, emptyDirectory, emptyWorld)"
  by (simp add: Snapshot_def NewPlayerDirectory_def world0_def emptySource_def elems_def
      makeCopy_def emptyDirectory_def emptyWorld_def defaultPlayerCacheExpiry_def)

lemma snapshot_pair:
  "Snapshot Status pairDirectory pairWorld =
     (Inr 1, pairDirectory, pairWorld\<lparr>store := (store pairWorld)(1 \<mapsto> [alice, bob]), fresh := 2\<rparr>)"
  by (simp add: Snapshot_def pairDirectory_def pairWorld_def elems_def makeCopy_def)

lemma tailLoop_Continue:
  "tailStep st it = Continue st1 fx \<Longrightarrow>
     tailLoop st (it # its) = (fx @ fst (tailLoop st1 its), snd (tailLoop st1 its))"
  by (simp add: split_def Let_def)

section \<open>The claims\<close>

text \<open>
  C1, as the specification states it: whenever \<open>ParseEventLine\<close> succeeds the command of
  the event is not empty. That fails for the line \<open>;a;1;b\<close>: it is not a join and not a
  kill, the generic player grammar accepts it, and its command is the trimmed first
  field, which is empty.
\<close>

theorem C1_empty_command:
  "map_sum id GetCommand (ParseEventLine '';a;1;b'') = Inr []"
  by (simp add: pel_empty_cmd)

text \<open>
  C1, amended: whenever \<open>ParseEventLine\<close> succeeds, the command of the event is empty
  exactly when the line was classified by the generic player grammar (after the removal
  of the timestamp it has no prefix \<open>InitGame:\<close> or \<open>ShutdownGame:\<close> and contains a
  semicolon) and its first semicolon-delimited field is empty or all white space. For
  every other line that is classified the command is not empty.
\<close>

theorem C1_command_empty_iff:
  assumes "ParseEventLine line = Inr ev"
  shows "GetCommand ev = [] \<longleftrightarrow>
           \<not> HasPrefix (body line) ''InitGame:'' \<and> \<not> HasPrefix (body line) ''ShutdownGame:''
           \<and> Contains (body line) '';''
           \<and> TrimSpace (takeWhile (\<lambda>c. c \<noteq> CHR '';'') (body line)) = []"
proof -
  from assms have ne: "TrimSpace line \<noteq> []"
    by (auto simp: ParseEventLine_unfold split: if_splits)
  with assms have c: "classifyLine (body line) (fst (stripTimestamp (TrimSpace line)))
      (TrimSpace line) = Inr ev"
    by (simp add: ParseEventLine_unfold)
  from ne have "body line \<noteq> []" by (rule body_nonempty)
  with c show ?thesis by (rule classifyLine_command)
qed

theorem C1_command_empty_iff_witness:
  "ParseEventLine ''say PlayerOne hello'' =
     Inr (EPlayer \<lparr>Timestamp = None, Command = ''say'', Raw = ''say PlayerOne hello'',
                   XUID = [], Flag = 0, Player = ''PlayerOne'', Message = ''hello''\<rparr>)
   \<and> \<not> (\<not> HasPrefix (body ''say PlayerOne hello'') ''InitGame:''
         \<and> \<not> HasPrefix (body ''say PlayerOne hello'') ''ShutdownGame:''
         \<and> Contains (body ''say PlayerOne hello'') '';''
         \<and> TrimSpace (takeWhile (\<lambda>c. c \<noteq> CHR '';'') (body ''say PlayerOne hello'')) = [])"
  using pel_chat_plain C1_command_empty_iff [OF pel_chat_plain] by simp

text \<open>
  C2, as the specification states it: once a successful refresh has populated the cache,
  no \<open>Snapshot\<close> before the expiry calls the source. That fails when the refresh returned
  no players: the new directory is refreshed from a source that reports an empty
  sequence, at time 100 with a time to live of two seconds, and the next \<open>Snapshot\<close>, still
  at time 100, calls \<open>Status\<close> again, since its test is \<open>len(d.players) > 0\<close>.
\<close>

theorem C2_empty_refresh:
  "Snapshot emptySource (NewPlayerDirectory 0) world0 =
     (Inr 1, \<lparr>ttl = 2000000000, players = Some 0, expires = 2000000100\<rparr>,
      \<lparr>now = 100, source = (), calls = 1, store = [0 \<mapsto> [], 1 \<mapsto> []], fresh = 2\<rparr>)
   \<and> calls (snd (snd (Snapshot emptySource
        \<lparr>ttl = 2000000000, players = Some 0, expires = 2000000100\<rparr>
        \<lparr>now = 100, source = (), calls = 1, store = [0 \<mapsto> [], 1 \<mapsto> []], fresh = 2\<rparr>))) = 2"
  by (simp add: Snapshot_def NewPlayerDirectory_def world0_def emptySource_def elems_def
      makeCopy_def defaultPlayerCacheExpiry_def)

text \<open>
  C2, amended: let the cache hold a sequence \<open>ps\<close>, as a successful refresh leaves it
  (\<open>refresh_fills_cache\<close>). When \<open>ps\<close> has at least one player, a \<open>Snapshot\<close> before the
  expiry returns a newly allocated slice that holds \<open>ps\<close> and is not the slice of the
  cache, and changes nothing else: the directory, the clock, the source and the number
  of its calls are as before, and the cache still holds \<open>ps\<close>, so that the same is true
  of every later call before the expiry. A \<open>Snapshot\<close> at or after the expiry calls
  \<open>Status\<close>. When \<open>ps\<close> is empty, a \<open>Snapshot\<close> calls \<open>Status\<close> whatever the time, also
  before the expiry.
\<close>

theorem C2_cached_snapshot:
  assumes "cacheHolds d w ps"
  shows "(ps \<noteq> [] \<and> now w < expires d \<longrightarrow>
            Snapshot Status d w =
              (Inr (fresh w), d, w\<lparr>store := (store w)(fresh w \<mapsto> ps), fresh := Suc (fresh w)\<rparr>)
            \<and> Some (fresh w) \<noteq> players d
            \<and> cacheHolds d (w\<lparr>store := (store w)(fresh w \<mapsto> ps), fresh := Suc (fresh w)\<rparr>) ps)
       \<and> (ps = [] \<or> expires d \<le> now w \<longrightarrow>
            calls (snd (snd (Snapshot Status d w))) = Suc (calls w))"
  using assms
  by (auto simp: Snapshot_def makeCopy_def cacheHolds_def elems_def Let_def
      split: option.splits prod.splits sum.splits)

theorem C2_cached_snapshot_witness:
  "cacheHolds aliceDirectory aliceWorld [alice]
   \<and> now aliceWorld < expires aliceDirectory
   \<and> Snapshot aliceSource aliceDirectory aliceWorld =
       (Inr 2, aliceDirectory, aliceWorld\<lparr>store := (store aliceWorld)(2 \<mapsto> [alice]), fresh := 3\<rparr>)
   \<and> expires aliceDirectory \<le> now (aliceWorld\<lparr>now := 2000000107\<rparr>)
   \<and> calls (snd (snd (Snapshot aliceSource aliceDirectory (aliceWorld\<lparr>now := 2000000107\<rparr>)))) = 2
   \<and> cacheHolds emptyDirectory emptyWorld []
   \<and> now emptyWorld < expires emptyDirectory
   \<and> calls (snd (snd (Snapshot emptySource emptyDirectory emptyWorld))) = 2"
proof -
  have h1: "cacheHolds aliceDirectory aliceWorld [alice]"
    by (simp add: cacheHolds_def aliceDirectory_def aliceWorld_def)
  have h2: "cacheHolds aliceDirectory (aliceWorld\<lparr>now := 2000000107\<rparr>) [alice]"
    by (simp add: cacheHolds_def aliceDirectory_def aliceWorld_def)
  have h3: "cacheHolds emptyDirectory emptyWorld []"
    by (simp add: cacheHolds_def emptyDirectory_def emptyWorld_def)
  have a: "now aliceWorld < expires aliceDirectory"
    "expires aliceDirectory \<le> now (aliceWorld\<lparr>now := 2000000107\<rparr>)"
    "fresh aliceWorld = 2" "calls aliceWorld = 1"
    "now emptyWorld < expires emptyDirectory" "calls emptyWorld = 1"
    by (simp_all add: aliceDirectory_def aliceWorld_def emptyDirectory_def emptyWorld_def)
  show ?thesis
    using h1 h3 a C2_cached_snapshot [OF h1, of aliceSource]
      C2_cached_snapshot [OF h2, of aliceSource] C2_cached_snapshot [OF h3, of emptySource]
    by simp
qed

text \<open>
  C3, as the specification states it: parsing a blob, writing the mapping back as
  \<open>\key\value\<close> pairs and parsing the result gives the pairs of the blob again. The
  mapping has no order, so the pairs may be written in any order. That fails for the
  blob \<open>\k\ \j\x\<close>, whose mapping takes \<open>k\<close> to a single space and \<open>j\<close> to \<open>x\<close>: written
  with the pair of \<open>k\<close> last, the blob ends in that space, \<open>parseKeyValuePairs\<close> trims it
  away and \<open>k\<close> is taken to the empty string.
\<close>

theorem C3_trailing_space_lost:
  "distinct (map fst [(''j'', ''x''), (''k'', '' '')])
   \<and> map_of [(''j'', ''x''), (''k'', '' '')] = parseKeyValuePairs exampleBlob
   \<and> parseKeyValuePairs (serializePairs [(''j'', ''x''), (''k'', '' '')])
       \<noteq> parseKeyValuePairs exampleBlob"
proof -
  have "parseKeyValuePairs (serializePairs [(''j'', ''x''), (''k'', '' '')]) ''k''
          \<noteq> parseKeyValuePairs exampleBlob ''k''"
    by (simp add: parse_reordered parse_exampleBlob)
  then have "parseKeyValuePairs (serializePairs [(''j'', ''x''), (''k'', '' '')])
          \<noteq> parseKeyValuePairs exampleBlob"
    by metis
  then show ?thesis by (simp add: parse_exampleBlob)
qed

text \<open>
  C3, amended: let \<open>kvs\<close> list the pairs of the mapping parsed from a blob, each key once,
  in any order, and let the value written last not end in white space. Then the
  serialization of \<open>kvs\<close> parses back to the mapping of the blob.
\<close>

theorem C3_round_trip:
  assumes "distinct (map fst kvs)" and "map_of kvs = parseKeyValuePairs blob"
    and "kvs = [] \<or> lastSpaceWidth (snd (last kvs)) = 0"
  shows "parseKeyValuePairs (serializePairs kvs) = parseKeyValuePairs blob"
proof (cases "kvs = []")
  case True
  then have "parseKeyValuePairs (serializePairs kvs) = Map.empty"
    by (simp add: serializePairs_def parseKeyValuePairs_def TrimSpace_Nil)
  with True assms(2) show ?thesis by simp
next
  case False
  with assms(3) have l: "lastSpaceWidth (snd (last kvs)) = 0" by simp
  from TrimSpace_serializePairs [OF False l]
  have t: "TrimSpace (serializePairs kvs) = serializePairs kvs" and ne: "serializePairs kvs \<noteq> []"
    by simp_all
  have nb: "\<forall>(k, v) \<in> set kvs. CHR 0x5C \<notin> set k \<and> CHR 0x5C \<notin> set v"
  proof (clarify, rule parseKeyValuePairs_no_backslash)
    fix k v assume "(k, v) \<in> set kvs"
    then have "map_of kvs k = Some v" using assms(1) by simp
    then show "parseKeyValuePairs blob k = Some v" by (simp add: assms(2))
  qed
  have "Split ([] @ serializePairs kvs) (CHR 0x5C) = [] # tokens kvs"
    using nb by (rule Split_value_serialize) simp
  then have "parseKeyValuePairs (serializePairs kvs) = kvLoop (tokens kvs) Map.empty"
    by (simp add: parseKeyValuePairs_def t ne)
  also have "\<dots> = map_of kvs" using assms(1) by (simp add: kvLoop_tokens)
  finally show ?thesis by (simp add: assms(2))
qed

theorem C3_round_trip_witness:
  "distinct (map fst [(''k'', '' ''), (''j'', ''x'')])
   \<and> map_of [(''k'', '' ''), (''j'', ''x'')] = parseKeyValuePairs exampleBlob
   \<and> lastSpaceWidth (snd (last [(''k'', '' ''), (''j'', ''x'')])) = 0
   \<and> parseKeyValuePairs (serializePairs [(''k'', '' ''), (''j'', ''x'')])
       = parseKeyValuePairs exampleBlob"
proof -
  have h1: "distinct (map fst [(''k'', '' ''), (''j'', ''x'')])" by simp
  have h2: "map_of [(''k'', '' ''), (''j'', ''x'')] = parseKeyValuePairs exampleBlob"
    by (auto simp: parse_exampleBlob)
  have h3': "lastSpaceWidth (snd (last [(''k'', '' ''), (''j'', ''x'')])) = 0" by code_simp
  then have h3: "[(''k'', '' ''), (''j'', ''x'')] = []
      \<or> lastSpaceWidth (snd (last [(''k'', '' ''), (''j'', ''x'')])) = 0" ..
  from C3_round_trip [OF h1 h2 h3] h1 h2 h3' show ?thesis by blast
qed

text \<open>
  C4, as the specification states it: the event for \<open>1:02:03 say PlayerOne hello\<close> has a
  timestamp of 3723 seconds and equals the event for \<open>say PlayerOne hello\<close> in every
  other field, \<open>raw\<close> among them. That fails: \<open>raw\<close> is the trimmed line as it came, with
  its timestamp.
\<close>

theorem C4_raw_differs:
  "map_sum id GetRaw (ParseEventLine ''1:02:03 say PlayerOne hello'')
     \<noteq> map_sum id GetRaw (ParseEventLine ''say PlayerOne hello'')"
  by (simp add: pel_chat_plain pel_chat_ts)

text \<open>
  C4, amended: the event for \<open>1:02:03 say PlayerOne hello\<close> is a player event with a
  timestamp of 3723 seconds (3723000000000 nanoseconds) whose command, player, message,
  xuid and slot are those of the event for \<open>say PlayerOne hello\<close>, which has no
  timestamp; the \<open>raw\<close> field of each is its own trimmed input line.
\<close>

theorem C4_timestamped_chat:
  "ParseEventLine ''1:02:03 say PlayerOne hello'' =
     Inr (EPlayer \<lparr>Timestamp = Some (3723 * Second), Command = ''say'',
                   Raw = ''1:02:03 say PlayerOne hello'',
                   XUID = [], Flag = 0, Player = ''PlayerOne'', Message = ''hello''\<rparr>)
   \<and> ParseEventLine ''say PlayerOne hello'' =
     Inr (EPlayer \<lparr>Timestamp = None, Command = ''say'', Raw = ''say PlayerOne hello'',
                   XUID = [], Flag = 0, Player = ''PlayerOne'', Message = ''hello''\<rparr>)
   \<and> sint (3723 * Second) = 3723 * 1000000000"
  by (simp add: pel_chat_plain pel_chat_ts Second_def)

text \<open>
  C5: when \<open>Snapshot\<close> refreshes (the cache is empty or has expired) and \<open>Status\<close> fails,
  \<open>Snapshot\<close> returns the error of \<open>Status\<close>; the directory, with its cached slice and its
  expiry, and the store of backing arrays are as before. Only the clock, the state of
  the source and the number of its calls have moved.
\<close>

theorem C5_refresh_failure:
  assumes "\<not> (length (elems w (players d)) > 0 \<and> now w < expires d)"
    and "Status (source w) = (Inl err, src, dt)"
  shows "Snapshot Status d w =
           (Inl err, d, w\<lparr>now := now w + int dt, source := src, calls := Suc (calls w)\<rparr>)"
  using assms by (auto simp add: Snapshot_def)

theorem C5_refresh_failure_witness:
  "\<not> (length (elems (aliceWorld\<lparr>now := 2000000107\<rparr>) (players aliceDirectory)) > 0
       \<and> now (aliceWorld\<lparr>now := 2000000107\<rparr>) < expires aliceDirectory)
   \<and> failingSource (source (aliceWorld\<lparr>now := 2000000107\<rparr>)) = (Inl (SourceError 1), (), 5)
   \<and> Snapshot failingSource aliceDirectory (aliceWorld\<lparr>now := 2000000107\<rparr>) =
       (Inl (SourceError 1), aliceDirectory,
        aliceWorld\<lparr>now := 2000000112, source := (), calls := 2\<rparr>)"
proof -
  have h1: "\<not> (length (elems (aliceWorld\<lparr>now := 2000000107\<rparr>) (players aliceDirectory)) > 0
       \<and> now (aliceWorld\<lparr>now := 2000000107\<rparr>) < expires aliceDirectory)"
    by (simp add: aliceWorld_def aliceDirectory_def)
  have h2: "failingSource (source (aliceWorld\<lparr>now := 2000000107\<rparr>)) = (Inl (SourceError 1), (), 5)"
    by (simp add: failingSource_def)
  show ?thesis
    using h1 h2 C5_refresh_failure [where Status = failingSource, OF h1 h2]
    by (simp add: aliceWorld_def)
qed

text \<open>
  C6: let a line, after trimming and the removal of its timestamp, contain a semicolon
  and reach the semicolon grammars (it has no prefix \<open>InitGame:\<close> or \<open>ShutdownGame:\<close>), and
  let it have fewer than four semicolon-delimited fields or a third field that \<open>Atoi\<close>
  rejects. Then the join and the kill grammar reject it as well, \<open>ParseEventLine\<close>
  returns one error, that of the generic player grammar, and does not panic. When the
  tailer reads such a line it logs the error, sends no event and goes on with the next
  pass of its loop.
\<close>

theorem C6_unclassifiable_line:
  assumes "Contains (body line) '';''"
    and "\<not> HasPrefix (body line) ''InitGame:''" and "\<not> HasPrefix (body line) ''ShutdownGame:''"
    and "length (SplitN (body line) (CHR '';'') 5) < 4
         \<or> isl (Atoi (TrimSpace (SplitN (body line) (CHR '';'') 5 ! 2)))"
  shows "\<exists>err. ParseEventLine line = Inl err \<and> err \<noteq> Panic
           \<and> (err = InvalidPlayerEventLine (body line) \<or> (\<exists>p e. err = InvalidFlag p e))
           \<and> (\<forall>st it its data.
                 doneAtTop it = None \<and> rd it = ReadLine data
                 \<and> TrimRight data [CHR 0x0D, CHR 0x0A] = line \<longrightarrow>
                 tailStep st it = Continue (st\<lparr>pos := pos st + length data\<rparr>) [LogParseError err]
                 \<and> tailLoop st (it # its) =
                     (LogParseError err # fst (tailLoop (st\<lparr>pos := pos st + length data\<rparr>) its),
                      snd (tailLoop (st\<lparr>pos := pos st + length data\<rparr>) its)))"
proof -
  define err where "err =
     (if length (SplitN (body line) (CHR '';'') 5) < 4 then InvalidPlayerEventLine (body line)
      else InvalidFlag (SplitN (body line) (CHR '';'') 5 ! 2)
             (projl (Atoi (TrimSpace (SplitN (body line) (CHR '';'') 5 ! 2)))))"
  have "body line \<noteq> []" using assms(1) by auto
  then have ne: "TrimSpace line \<noteq> []" using body_Nil by blast
  have p: "ParseEventLine line = Inl err"
    using ne classifyLine_generic_fail [OF assms] by (simp add: ParseEventLine_unfold err_def)
  have np: "err \<noteq> Panic" by (simp add: err_def)
  have k: "err = InvalidPlayerEventLine (body line) \<or> (\<exists>p e. err = InvalidFlag p e)"
    by (simp add: err_def)
  have ln: "line \<noteq> []" using ne TrimSpace_Nil by auto
  have t: "tailStep st it = Continue (st\<lparr>pos := pos st + length data\<rparr>) [LogParseError err]"
    if "doneAtTop it = None \<and> rd it = ReadLine data \<and> TrimRight data [CHR 0x0D, CHR 0x0A] = line"
    for st it data
    using that p ln by (simp add: tailStep_def Let_def)
  have "tailLoop st (it # its) =
          (LogParseError err # fst (tailLoop (st\<lparr>pos := pos st + length data\<rparr>) its),
           snd (tailLoop (st\<lparr>pos := pos st + length data\<rparr>) its))"
    if "doneAtTop it = None \<and> rd it = ReadLine data \<and> TrimRight data [CHR 0x0D, CHR 0x0A] = line"
    for st it its data
    using tailLoop_Continue [OF t [OF that]] by simp
  with t p np k show ?thesis by blast
qed

theorem C6_unclassifiable_line_witness:
  "Contains (body ''a;b'') '';''
   \<and> \<not> HasPrefix (body ''a;b'') ''InitGame:'' \<and> \<not> HasPrefix (body ''a;b'') ''ShutdownGame:''
   \<and> length (SplitN (body ''a;b'') (CHR '';'') 5) < 4
   \<and> ParseEventLine ''a;b'' = Inl (InvalidPlayerEventLine ''a;b'')
   \<and> tailStep tailer0 badLinePass =
       Continue \<lparr>handle = 0, pos = 4\<rparr> [LogParseError (InvalidPlayerEventLine ''a;b'')]"
proof -
  have h1: "Contains (body ''a;b'') '';''" by code_simp
  have h2: "\<not> HasPrefix (body ''a;b'') ''InitGame:''" by code_simp
  have h3: "\<not> HasPrefix (body ''a;b'') ''ShutdownGame:''" by code_simp
  have h4': "length (SplitN (body ''a;b'') (CHR '';'') 5) < 4" by code_simp
  then have h4: "length (SplitN (body ''a;b'') (CHR '';'') 5) < 4
         \<or> isl (Atoi (TrimSpace (SplitN (body ''a;b'') (CHR '';'') 5 ! 2)))" ..
  have r: "TrimRight [CHR ''a'', CHR '';'', CHR ''b'', CHR 0x0A] [CHR 0x0D, CHR 0x0A] = ''a;b''"
    by code_simp
  from C6_unclassifiable_line [OF h1 h2 h3 h4] obtain err
    where e: "ParseEventLine ''a;b'' = Inl err"
      and t: "\<And>st it its data.
                 doneAtTop it = None \<and> rd it = ReadLine data
                 \<and> TrimRight data [CHR 0x0D, CHR 0x0A] = ''a;b'' \<Longrightarrow>
                 tailStep st it = Continue (st\<lparr>pos := pos st + length data\<rparr>) [LogParseError err]"
    by blast
  from e have err: "err = InvalidPlayerEventLine ''a;b''" by (simp add: pel_short)
  have "tailStep tailer0 badLinePass =
          Continue (tailer0\<lparr>pos := pos tailer0 + length [CHR ''a'', CHR '';'', CHR ''b'', CHR 0x0A]\<rparr>)
            [LogParseError err]"
    by (rule t) (simp add: badLinePass_def r)
  then show ?thesis using h1 h2 h3 h4' e err by (simp add: tailer0_def)
qed

text \<open>
  C7, as the specification states it: \<open>FindByName\<close> returns the first player of the
  snapshot whose stripped name contains the stripped query, whatever the query. That
  fails for a query that is empty once stripped: the cache holds \<open>alice\<close> and \<open>bob\<close> and has
  not expired, every name contains the empty string, and \<open>FindByName\<close> returns no player.
\<close>

theorem C7_empty_query_not_found:
  "cacheHolds pairDirectory pairWorld [alice, bob] \<and> now pairWorld < expires pairDirectory
   \<and> Contains (ToLower id (stripColorCodes (Name alice)))
               (ToLower id (TrimSpace (stripColorCodes ''^7'')))
   \<and> fst (FindByName id failingSource pairDirectory pairWorld ''^7'') = Inr None"
proof -
  have a: "cacheHolds pairDirectory pairWorld [alice, bob] \<and> now pairWorld < expires pairDirectory"
    by (simp add: cacheHolds_def pairDirectory_def pairWorld_def)
  have b: "Contains (ToLower id (stripColorCodes (Name alice)))
               (ToLower id (TrimSpace (stripColorCodes ''^7'')))" by code_simp
  have c: "TrimSpace (stripColorCodes ''^7'') = []" by code_simp
  have d: "FindByName id failingSource pairDirectory pairWorld ''^7'' =
      (Inr None, pairDirectory, pairWorld)"
    unfolding FindByName_def Let_def c by simp
  show ?thesis using a b unfolding d by simp
qed

text \<open>
  C7, amended: the query is stripped of its colour codes and trimmed. When what is left
  is not empty and \<open>Snapshot\<close> succeeds, \<open>FindByName\<close> returns the first player of the
  snapshot whose name, stripped and in lower case, contains the lower-case query as a
  substring, and no player when no name does; the directory and the world are those
  that \<open>Snapshot\<close> leaves. (When nothing is left of the query it returns no player, C9.)
\<close>

theorem C7_find_by_name:
  assumes "TrimSpace (stripColorCodes name) \<noteq> []"
    and "Snapshot Status d w = (Inr sl, d1, w1)"
  shows "let q = ToLower mapLower (TrimSpace (stripColorCodes name));
             ps = elems w1 (Some sl);
             res = find (\<lambda>p. Contains (ToLower mapLower (stripColorCodes (Name p))) q) ps
         in FindByName mapLower Status d w name = (Inr res, d1, w1)
            \<and> (case res of
                  None \<Rightarrow>
                    \<forall>p \<in> set ps. \<not> (\<exists>pre post.
                       ToLower mapLower (stripColorCodes (Name p)) = pre @ q @ post)
                | Some p \<Rightarrow>
                    \<exists>i < length ps. ps ! i = p
                      \<and> (\<exists>pre post. ToLower mapLower (stripColorCodes (Name p)) = pre @ q @ post)
                      \<and> (\<forall>j < i. \<not> (\<exists>pre post.
                            ToLower mapLower (stripColorCodes (Name (ps ! j))) = pre @ q @ post)))"
proof -
  define q where "q = ToLower mapLower (TrimSpace (stripColorCodes name))"
  define ps where "ps = elems w1 (Some sl)"
  define P :: "Player \<Rightarrow> bool" where "P = (\<lambda>p. Contains (ToLower mapLower (stripColorCodes (Name p))) q)"
  have P: "P p \<longleftrightarrow> (\<exists>pre post. ToLower mapLower (stripColorCodes (Name p)) = pre @ q @ post)" for p
    by (simp add: P_def Contains_iff)
  have f: "FindByName mapLower Status d w name = (Inr (find P ps), d1, w1)"
    using assms by (simp add: FindByName_def Let_def q_def ps_def P_def)
  have c: "case find P ps of
             None \<Rightarrow> \<forall>p \<in> set ps. \<not> P p
           | Some p \<Rightarrow> \<exists>i < length ps. ps ! i = p \<and> P p \<and> (\<forall>j < i. \<not> P (ps ! j))"
  proof (cases "find P ps")
    case None
    then have "\<forall>p \<in> set ps. \<not> P p" by (auto simp: find_None_iff)
    with None show ?thesis by simp
  next
    case (Some p)
    then have "\<exists>i < length ps. ps ! i = p \<and> P p \<and> (\<forall>j < i. \<not> P (ps ! j))"
      unfolding find_Some_iff by blast
    with Some show ?thesis by simp
  qed
  from f c show ?thesis
    unfolding Let_def q_def [symmetric] ps_def [symmetric] P_def [symmetric] P [symmetric]
    by simp
qed

theorem C7_find_by_name_witness:
  "TrimSpace (stripColorCodes ''^3 LIC '') \<noteq> []
   \<and> Snapshot failingSource pairDirectory pairWorld =
       (Inr 1, pairDirectory, pairWorld\<lparr>store := (store pairWorld)(1 \<mapsto> [alice, bob]), fresh := 2\<rparr>)
   \<and> FindByName id failingSource pairDirectory pairWorld ''^3 LIC '' =
       (Inr (Some alice), pairDirectory,
        pairWorld\<lparr>store := (store pairWorld)(1 \<mapsto> [alice, bob]), fresh := 2\<rparr>)"
proof -
  have h1: "TrimSpace (stripColorCodes ''^3 LIC '') \<noteq> []" by code_simp
  have h2: "Snapshot failingSource pairDirectory pairWorld =
       (Inr 1, pairDirectory, pairWorld\<lparr>store := (store pairWorld)(1 \<mapsto> [alice, bob]), fresh := 2\<rparr>)"
    by (rule snapshot_pair)
  have e: "elems (pairWorld\<lparr>store := (store pairWorld)(1 \<mapsto> [alice, bob]), fresh := 2\<rparr>) (Some 1)
      = [alice, bob]"
    by (simp add: elems_def)
  have m: "Contains (ToLower id (stripColorCodes (Name alice)))
      (ToLower id (TrimSpace (stripColorCodes ''^3 LIC '')))" by code_simp
  have f: "find (\<lambda>p. Contains (ToLower id (stripColorCodes (Name p)))
                 (ToLower id (TrimSpace (stripColorCodes ''^3 LIC '')))) [alice, bob] = Some alice"
    using m by (simp only: find.simps if_True)
  have "FindByName id failingSource pairDirectory pairWorld ''^3 LIC '' =
       (Inr (Some alice), pairDirectory,
        pairWorld\<lparr>store := (store pairWorld)(1 \<mapsto> [alice, bob]), fresh := 2\<rparr>)"
    using C7_find_by_name [OF h1 h2, of id, unfolded Let_def e f] by (rule conjunct1)
  with h1 h2 show ?thesis by (intro conjI)
qed

text \<open>
  C8: when the trimmed line is a single field \<open>t\<close>, \<open>ParseEventLine\<close> extracts no
  timestamp from it, whatever the form of \<open>t\<close>: every event it returns has none. When
  moreover \<open>t\<close> has no prefix \<open>InitGame:\<close> or \<open>ShutdownGame:\<close> and no semicolon (a single
  field cannot start with \<open>say\<close> and a space), the result is the base event whose command
  and raw line are \<open>t\<close>, without a timestamp.
\<close>

theorem C8_single_token:
  assumes "Fields (TrimSpace line) = [t]"
  shows "(\<forall>ev. ParseEventLine line = Inr ev \<longrightarrow> GetTimestamp ev = None)
       \<and> (\<not> HasPrefix t ''InitGame:'' \<and> \<not> HasPrefix t ''ShutdownGame:'' \<and> \<not> Contains t '';''
            \<longrightarrow> ParseEventLine line = Inr (EBase \<lparr>Timestamp = None, Command = t, Raw = t\<rparr>))"
proof -
  from single_token_line [OF assms]
  have p: "ParseEventLine line = classifyLine t None t"
    and ns: "\<not> (HasPrefix t ''say '' \<or> HasPrefix t ''sayteam '')" by simp_all
  have "GetTimestamp ev = None" if "ParseEventLine line = Inr ev" for ev
    using that classifyLine_ts [of t None t ev] by (simp add: p)
  moreover have "ParseEventLine line = Inr (EBase \<lparr>Timestamp = None, Command = t, Raw = t\<rparr>)"
    if "\<not> HasPrefix t ''InitGame:'' \<and> \<not> HasPrefix t ''ShutdownGame:'' \<and> \<not> Contains t '';''"
    using that ns by (simp add: p classifyLine_def)
  ultimately show ?thesis by blast
qed

theorem C8_single_token_witness:
  "Fields (TrimSpace ''1:02'') = [''1:02'']
   \<and> ParseEventLine ''1:02'' = Inr (EBase \<lparr>Timestamp = None, Command = ''1:02'', Raw = ''1:02''\<rparr>)
   \<and> map_sum id GetTimestamp (ParseEventLine ''1:02'') = Inr None"
proof -
  have h: "Fields (TrimSpace ''1:02'') = [''1:02'']" by code_simp
  have g: "\<not> HasPrefix ''1:02'' ''InitGame:'' \<and> \<not> HasPrefix ''1:02'' ''ShutdownGame:''
           \<and> \<not> Contains ''1:02'' '';''" by code_simp
  show ?thesis using h g C8_single_token [OF h] by simp
qed

text \<open>
  C9: when the query is empty once its colour codes are stripped and it is trimmed,
  \<open>FindByName\<close> returns no player and no error, and the directory and the world are
  those it was given: \<open>Status\<close> is not called, the cache and the expiry are untouched,
  and no error of the source can come out.
\<close>

theorem C9_empty_query:
  assumes "TrimSpace (stripColorCodes name) = []"
  shows "FindByName mapLower Status d w name = (Inr None, d, w)"
  using assms by (simp add: FindByName_def)

theorem C9_empty_query_witness:
  "TrimSpace (stripColorCodes ''^1 ^'') = []
   \<and> FindByName id failingSource (NewPlayerDirectory 0) world0 ''^1 ^'' =
       (Inr None, NewPlayerDirectory 0, world0)"
proof -
  have h: "TrimSpace (stripColorCodes ''^1 ^'') = []" by code_simp
  show ?thesis using h C9_empty_query [OF h] by simp
qed

text \<open>
  C10: in a pass in which the context is not done at the top, \<open>ReadString\<close> returns
  \<open>io.EOF\<close> and \<open>os.Stat\<close> of the path fails, the tailer makes no rotation check (it
  closes and reopens nothing) and waits for the poll interval or the context. If the
  context is done first it returns the error of the context; otherwise it goes on with
  the next pass, on the same file and at the position where the read ended. It never
  returns the failure of \<open>os.Stat\<close>.
\<close>

theorem C10_stat_failure:
  assumes "doneAtTop it = None" and "rd it = ReadEOF data" and "statPath it = None"
  shows "(doneInSleep it = None \<longrightarrow>
            tailStep st it = Continue (st\<lparr>pos := pos st + length data\<rparr>) [SleepPoll]
            \<and> tailLoop st (it # its) =
                (SleepPoll # fst (tailLoop (st\<lparr>pos := pos st + length data\<rparr>) its),
                 snd (tailLoop (st\<lparr>pos := pos st + length data\<rparr>) its)))
       \<and> (\<forall>err. doneInSleep it = Some err \<longrightarrow> tailStep st it = Return err [])"
  using assms by (simp add: tailStep_def split_def Let_def)

theorem C10_stat_failure_witness:
  "doneAtTop eofPass = None \<and> rd eofPass = ReadEOF ''par'' \<and> statPath eofPass = None
   \<and> tailStep tailer0 eofPass = Continue \<lparr>handle = 0, pos = 3\<rparr> [SleepPoll]"
proof -
  have h1: "doneAtTop eofPass = None" by (simp add: eofPass_def)
  have h2: "rd eofPass = ReadEOF ''par''" by (simp add: eofPass_def)
  have h3: "statPath eofPass = None" by (simp add: eofPass_def)
  have h4: "doneInSleep eofPass = None" by (simp add: eofPass_def)
  show ?thesis
    using h1 h2 h3 h4 C10_stat_failure [OF h1 h2 h3, of tailer0 "[]"]
    by (simp add: tailer0_def)
qed

end
